theory Spec2Isabelle
  imports Main
begin

section \<open>JavaScript values and payloads\<close>

text \<open>
  The fields of an event payload are untyped JSON values. The code only tests them for
  truthiness, compares them with an id by \<open>===\<close>, or copies them, so a small value
  type is enough. Numbers are kept as integers (nothing below depends on fractional
  coordinates), and an object or array is opaque: it is truthy and equal to no string.
\<close>

datatype jsval = JUndefined | JNull | JBool bool | JNum int | JStr string | JObject

fun truthy :: "jsval \<Rightarrow> bool" where
  "truthy JUndefined = False"
| "truthy JNull = False"
| "truthy (JBool b) = b"
| "truthy (JNum n) = (n \<noteq> 0)"
| "truthy (JStr s) = (s \<noteq> [])"
| "truthy JObject = True"

text \<open>
  \<open>data.data\<close> of a drawing event: the fields the server and the client reconciler read
  or write. A field that is absent in the JSON object is \<open>JUndefined\<close>.
\<close>

record payload =
  isComplete :: jsval
  operationId :: jsval
  tempId :: jsval
  tool :: jsval
  data_x :: jsval
  data_y :: jsval
  data_width :: jsval
  data_height :: jsval

text \<open>
  An operation object as built in the \<open>drawing-event\<close> handler. \<open>op_data\<close> is
  \<open>None\<close> when \<open>data.data\<close> is undefined or null, in which case a property read on it
  throws. The \<open>undone\<close> flag is added by \<open>DrawingState.addOperation\<close>.
\<close>

record operation =
  op_id :: string
  op_type :: string
  userId :: string
  userName :: string
  userColor :: string
  timestamp :: nat
  op_data :: "payload option"
  undone :: bool

section \<open>server/drawing-state.js\<close>

record drawing_state =
  roomId :: string
  operations :: "operation list"
  currentIndex :: int
  referenceSize :: jsval

definition new_DrawingState :: "string \<Rightarrow> drawing_state" where
  "new_DrawingState r =
     \<lparr>roomId = r, operations = [], currentIndex = - 1, referenceSize = JNull\<rparr>"

text \<open>
  \<open>Array.prototype.slice(0, e)\<close>: a negative end counts from the end of the array, and
  the end is clamped to the range of the array.
\<close>

definition js_slice0 :: "'a list \<Rightarrow> int \<Rightarrow> 'a list" where
  "js_slice0 xs e =
     (let n = int (length xs);
          k = (if e < 0 then max (n + e) 0 else min e n)
      in take (nat k) xs)"

text \<open>
  \<open>addOperation\<close> pushes a copy of the operation with \<open>undone: false\<close> and returns
  its argument.
\<close>

definition addOperation :: "operation \<Rightarrow> drawing_state \<Rightarrow> operation \<times> drawing_state" where
  "addOperation operation ds =
     (operation,
      ds\<lparr>operations := js_slice0 (operations ds) (currentIndex ds + 1) @ [operation\<lparr>undone := False\<rparr>],
         currentIndex := currentIndex ds + 1\<rparr>)"

text \<open>
  The loop of \<open>undo\<close>, \<open>for (i = length - 1; i >= 0; i--)\<close>. The counter of the model
  is \<open>i + 1\<close>, so that the loop ends at \<open>0\<close>; the result is the index of the match.
\<close>

fun undo_scan :: "operation list \<Rightarrow> string \<Rightarrow> nat \<Rightarrow> nat option" where
  "undo_scan ops u 0 = None"
| "undo_scan ops u (Suc i) =
     (if userId (ops ! i) = u \<and> \<not> undone (ops ! i) then Some i else undo_scan ops u i)"

text \<open>
  The matching object is mutated in place and returned, so the caller sees the entry
  with \<open>undone = true\<close>.
\<close>

definition set_undone :: "nat \<Rightarrow> bool \<Rightarrow> drawing_state \<Rightarrow> operation option \<times> drawing_state" where
  "set_undone i b ds =
     (let operation = (operations ds ! i)\<lparr>undone := b\<rparr>
      in (Some operation, ds\<lparr>operations := (operations ds)[i := operation]\<rparr>))"

definition undo :: "string \<Rightarrow> drawing_state \<Rightarrow> operation option \<times> drawing_state" where
  "undo u ds =
     (case undo_scan (operations ds) u (length (operations ds)) of
        Some i \<Rightarrow> set_undone i True ds
      | None \<Rightarrow> (None, ds))"

text \<open>The loop of \<open>redo\<close>, \<open>for (i = 0; i < length; i++)\<close>.\<close>

function redo_scan :: "operation list \<Rightarrow> string \<Rightarrow> nat \<Rightarrow> nat option" where
  "redo_scan ops u i =
     (if i < length ops
      then (if userId (ops ! i) = u \<and> undone (ops ! i) then Some i else redo_scan ops u (Suc i))
      else None)"
  by pat_completeness auto
termination
  by (relation "measure (\<lambda>(ops, u, i). length ops - i)") auto

declare redo_scan.simps [simp del]

definition redo :: "string \<Rightarrow> drawing_state \<Rightarrow> operation option \<times> drawing_state" where
  "redo u ds =
     (case redo_scan (operations ds) u 0 of
        Some i \<Rightarrow> set_undone i False ds
      | None \<Rightarrow> (None, ds))"

fun globalUndo_scan :: "operation list \<Rightarrow> nat \<Rightarrow> nat option" where
  "globalUndo_scan ops 0 = None"
| "globalUndo_scan ops (Suc i) =
     (if \<not> undone (ops ! i) then Some i else globalUndo_scan ops i)"

definition globalUndo :: "drawing_state \<Rightarrow> operation option \<times> drawing_state" where
  "globalUndo ds =
     (case globalUndo_scan (operations ds) (length (operations ds)) of
        Some i \<Rightarrow> set_undone i True ds
      | None \<Rightarrow> (None, ds))"

function globalRedo_scan :: "operation list \<Rightarrow> nat \<Rightarrow> nat option" where
  "globalRedo_scan ops i =
     (if i < length ops
      then (if undone (ops ! i) then Some i else globalRedo_scan ops (Suc i))
      else None)"
  by pat_completeness auto
termination
  by (relation "measure (\<lambda>(ops, i). length ops - i)") auto

declare globalRedo_scan.simps [simp del]

definition globalRedo :: "drawing_state \<Rightarrow> operation option \<times> drawing_state" where
  "globalRedo ds =
     (case globalRedo_scan (operations ds) 0 of
        Some i \<Rightarrow> set_undone i False ds
      | None \<Rightarrow> (None, ds))"

definition getActiveOperations :: "drawing_state \<Rightarrow> operation list" where
  "getActiveOperations ds =
     filter (\<lambda>op. \<not> undone op) (js_slice0 (operations ds) (currentIndex ds + 1))"

text \<open>\<open>getOperationHistory\<close> hands out the operation array itself.\<close>

record history =
  h_operations :: "operation list"
  h_currentIndex :: int
  h_referenceSize :: jsval

definition getOperationHistory :: "drawing_state \<Rightarrow> history" where
  "getOperationHistory ds =
     \<lparr>h_operations = operations ds, h_currentIndex = currentIndex ds,
      h_referenceSize = referenceSize ds\<rparr>"

definition clear :: "drawing_state \<Rightarrow> drawing_state" where
  "clear ds = ds\<lparr>operations := [], currentIndex := - 1\<rparr>"

section \<open>JavaScript Map\<close>

text \<open>
  A \<open>Map\<close> iterates in insertion order and holds a key once, so it is an association
  list without repeated keys: \<open>get\<close> is \<open>map_of\<close>, \<open>set\<close> on a key that is present
  replaces the value at its position, \<open>set\<close> on a new key appends, \<open>delete\<close> drops the
  key.
\<close>

fun map_set :: "'k \<Rightarrow> 'v \<Rightarrow> ('k \<times> 'v) list \<Rightarrow> ('k \<times> 'v) list" where
  "map_set k v [] = [(k, v)]"
| "map_set k v (p # m) = (if fst p = k then (k, v) # m else p # map_set k v m)"

definition map_delete :: "'k \<Rightarrow> ('k \<times> 'v) list \<Rightarrow> ('k \<times> 'v) list" where
  "map_delete k m = filter (\<lambda>p. fst p \<noteq> k) m"

text \<open>\<open>Array.prototype.findIndex\<close>, with \<open>None\<close> for \<open>-1\<close>.\<close>

fun findIndex :: "('a \<Rightarrow> bool) \<Rightarrow> 'a list \<Rightarrow> nat option" where
  "findIndex P [] = None"
| "findIndex P (x # xs) = (if P x then Some 0 else map_option Suc (findIndex P xs))"

section \<open>server/rooms.js\<close>

text \<open>
  A user object is shared: the room's \<open>users\<close> map holds it and so does the
  \<open>currentUser\<close> variable of the socket that joined, and \<open>removeUser\<close> writes
  \<open>isAdmin\<close> through the map. User objects therefore live in a store, a list indexed by
  address; the map and the socket hold addresses. \<open>addUser\<close> is the only allocation and
  nothing is ever freed, so every address that is held is in range.
\<close>

type_synonym addr = nat

record user =
  user_id :: string
  user_name :: string
  user_color :: string
  socketId :: string
  isAdmin :: bool
  joinedAt :: nat

record room =
  room_id :: string
  users :: "(string \<times> addr) list"
  drawingState :: drawing_state
  adminId :: "string option"
  createdAt :: nat

record room_manager =
  rooms :: "(string \<times> room) list"
  heap :: "user list"

definition new_RoomManager :: room_manager where
  "new_RoomManager = \<lparr>rooms = [], heap = []\<rparr>"

text \<open>\<open>now\<close> is the value of \<open>Date.now()\<close>.\<close>

definition getRoom :: "string \<Rightarrow> nat \<Rightarrow> room_manager \<Rightarrow> room \<times> room_manager" where
  "getRoom rid now rm =
     (case map_of (rooms rm) rid of
        Some room \<Rightarrow> (room, rm)
      | None \<Rightarrow>
          (let room = \<lparr>room_id = rid, users = [], drawingState = new_DrawingState rid,
                       adminId = None, createdAt = now\<rparr>
           in (room, rm\<lparr>rooms := map_set rid room (rooms rm)\<rparr>)))"

definition colorPalette :: "string list" where
  "colorPalette =
     [''#FF6B6B'', ''#4ECDC4'', ''#45B7D1'', ''#FFA07A'', ''#98D8C8'',
      ''#F7DC6F'', ''#BB8FCE'', ''#85C1E2'', ''#F8B739'', ''#52B788'']"

text \<open>\<open>rnd\<close> is the value of \<open>Math.floor(Math.random() * colorPalette.length)\<close>.\<close>

definition assignColor :: "user list \<Rightarrow> room \<Rightarrow> nat \<Rightarrow> string" where
  "assignColor h room rnd =
     (let usedColors = map (\<lambda>p. user_color (h ! snd p)) (users room)
      in case find (\<lambda>c. c \<notin> set usedColors) colorPalette of
           Some c \<Rightarrow> c
         | None \<Rightarrow> colorPalette ! (rnd mod length colorPalette))"

text \<open>
  \<open>addUser\<close> returns the new user object, here its address. The clock is read once
  for the room and once for the user; the model takes one value for both.
\<close>

definition addUser ::
  "string \<Rightarrow> string \<Rightarrow> string \<Rightarrow> string \<Rightarrow> nat \<Rightarrow> nat \<Rightarrow> room_manager \<Rightarrow> addr \<times> room_manager" where
  "addUser rid uid uname sid now rnd rm =
     (let (room, rm1) = getRoom rid now rm;
          isAdm = (users room = []);
          room1 = (if isAdm then room\<lparr>adminId := Some uid\<rparr> else room);
          color = assignColor (heap rm1) room1 rnd;
          user = \<lparr>user_id = uid, user_name = uname, user_color = color, socketId = sid,
                   isAdmin = isAdm, joinedAt = now\<rparr>;
          a = length (heap rm1);
          room2 = room1\<lparr>users := map_set uid a (users room1)\<rparr>
      in (a, rm1\<lparr>rooms := map_set rid room2 (rooms rm1), heap := heap rm1 @ [user]\<rparr>))"

text \<open>
  \<open>removeUser\<close> returns the removed user object (\<open>None\<close> for null or undefined). The
  new admin is the first value of the map after the deletion.
\<close>

definition removeUser :: "string \<Rightarrow> string \<Rightarrow> room_manager \<Rightarrow> addr option \<times> room_manager" where
  "removeUser rid uid rm =
     (case map_of (rooms rm) rid of
        None \<Rightarrow> (None, rm)
      | Some room \<Rightarrow>
          (let user = map_of (users room) uid;
               users1 = map_delete uid (users room);
               room1 = room\<lparr>users := users1\<rparr>;
               promote = (Some uid = adminId room \<and> users1 \<noteq> []);
               a = snd (hd users1);
               newAdmin = heap rm ! a;
               room2 = (if promote then room1\<lparr>adminId := Some (user_id newAdmin)\<rparr> else room1);
               heap2 = (if promote then (heap rm)[a := newAdmin\<lparr>isAdmin := True\<rparr>] else heap rm);
               rooms2 = (if users1 = [] then map_delete rid (rooms rm)
                         else map_set rid room2 (rooms rm))
           in (user, rm\<lparr>rooms := rooms2, heap := heap2\<rparr>)))"

definition getRoomUsers :: "string \<Rightarrow> room_manager \<Rightarrow> user list" where
  "getRoomUsers rid rm =
     (case map_of (rooms rm) rid of
        None \<Rightarrow> []
      | Some room \<Rightarrow> map (\<lambda>p. heap rm ! snd p) (users room))"

definition getDrawingState :: "string \<Rightarrow> room_manager \<Rightarrow> drawing_state option" where
  "getDrawingState rid rm = map_option drawingState (map_of (rooms rm) rid)"

text \<open>
  The handlers mutate the \<open>DrawingState\<close> object they got from \<open>getDrawingState\<close>; the
  model writes the new value back into the room.
\<close>

definition put_drawingState :: "string \<Rightarrow> drawing_state \<Rightarrow> room_manager \<Rightarrow> room_manager" where
  "put_drawingState rid ds rm =
     (case map_of (rooms rm) rid of
        None \<Rightarrow> rm
      | Some room \<Rightarrow> rm\<lparr>rooms := map_set rid (room\<lparr>drawingState := ds\<rparr>) (rooms rm)\<rparr>)"

section \<open>The socket handlers of the server\<close>

text \<open>
  Each connection has two variables, \<open>currentUser\<close> (a reference to the user object, or
  null) and \<open>currentRoom\<close> (the room id given to \<open>join-room\<close>, or null). Room ids and
  user names are taken to be strings. What a handler emits is not part of the model:
  only the state it leaves behind is.
\<close>

record socket =
  currentUser :: "addr option"
  currentRoom :: "string option"

definition new_socket :: socket where
  "new_socket = \<lparr>currentUser = None, currentRoom = None\<rparr>"

text \<open>
  The guard \<open>if (!currentRoom || !currentUser) return\<close> at the head of the handlers:
  the empty string is falsy as well.
\<close>

definition joined :: "socket \<Rightarrow> (addr \<times> string) option" where
  "joined sock =
     (case currentRoom sock of
        None \<Rightarrow> None
      | Some r \<Rightarrow>
          (if r = [] then None
           else (case currentUser sock of None \<Rightarrow> None | Some a \<Rightarrow> Some (a, r))))"

text \<open>\<open>join-room\<close>; \<open>uuid\<close> is the value of \<open>uuidv4()\<close>, \<open>sid\<close> is \<open>socket.id\<close>.\<close>

definition on_join_room ::
  "string \<Rightarrow> string \<Rightarrow> string \<Rightarrow> string \<Rightarrow> nat \<Rightarrow> nat \<Rightarrow> room_manager \<Rightarrow> socket \<times> room_manager" where
  "on_join_room sid rid uname uuid now rnd rm =
     (let (a, rm1) = addUser rid uuid uname sid now rnd rm
      in (\<lparr>currentUser = Some a, currentRoom = Some rid\<rparr>, rm1))"

text \<open>The argument of \<open>drawing-event\<close>: \<open>data.type\<close> and \<open>data.data\<close>.\<close>

record drawing_event =
  ev_type :: string
  ev_data :: "payload option"

datatype js_error = TypeError

text \<open>\<open>op.id === v\<close> for a string \<open>op.id\<close> and a JSON value \<open>v\<close>.\<close>

definition id_is :: "jsval \<Rightarrow> operation \<Rightarrow> bool" where
  "id_is v operation \<longleftrightarrow> v = JStr (op_id operation)"

definition move_existing :: "payload \<Rightarrow> operation list \<Rightarrow> operation list" where
  "move_existing d ops =
     (case findIndex (id_is (operationId d)) ops of
        None \<Rightarrow> ops
      | Some i \<Rightarrow>
          (case op_data (ops ! i) of
             None \<Rightarrow> ops
           | Some ed \<Rightarrow>
               ops[i := (ops ! i)\<lparr>op_data := Some (ed\<lparr>data_x := data_x d, data_y := data_y d\<rparr>)\<rparr>]))"

definition resize_existing :: "payload \<Rightarrow> operation list \<Rightarrow> operation list" where
  "resize_existing d ops =
     (case findIndex (id_is (operationId d)) ops of
        None \<Rightarrow> ops
      | Some i \<Rightarrow>
          (case op_data (ops ! i) of
             None \<Rightarrow> ops
           | Some ed \<Rightarrow>
               ops[i := (ops ! i)\<lparr>op_data :=
                 Some (ed\<lparr>data_width := data_width d, data_height := data_height d\<rparr>)\<rparr>]))"

text \<open>
  The three statements of the handler between building the operation and the
  broadcast. Reading a property of an undefined \<open>data.data\<close> throws.
\<close>

definition commit_step :: "operation \<Rightarrow> drawing_event \<Rightarrow> drawing_state \<Rightarrow> js_error + drawing_state" where
  "commit_step operation ev ds =
     (if ev_type ev = ''draw'' \<or> ev_type ev = ''shape'' \<or> ev_type ev = ''text'' \<or>
         ev_type ev = ''image''
      then Inr (snd (addOperation operation ds))
      else (case ev_data ev of
              None \<Rightarrow> Inl TypeError
            | Some d \<Rightarrow>
                Inr (if truthy (isComplete d) then snd (addOperation operation ds) else ds)))"

definition move_step :: "drawing_event \<Rightarrow> drawing_state \<Rightarrow> js_error + drawing_state" where
  "move_step ev ds =
     (if ev_type ev = ''move''
      then (case ev_data ev of
              None \<Rightarrow> Inl TypeError
            | Some d \<Rightarrow>
                Inr (if truthy (operationId d)
                     then ds\<lparr>operations := move_existing d (operations ds)\<rparr> else ds))
      else Inr ds)"

definition resize_step :: "drawing_event \<Rightarrow> drawing_state \<Rightarrow> js_error + drawing_state" where
  "resize_step ev ds =
     (if ev_type ev = ''resize''
      then (case ev_data ev of
              None \<Rightarrow> Inl TypeError
            | Some d \<Rightarrow>
                Inr (if truthy (operationId d)
                     then ds\<lparr>operations := resize_existing d (operations ds)\<rparr> else ds))
      else Inr ds)"

definition drawing_event_body ::
  "operation \<Rightarrow> drawing_event \<Rightarrow> drawing_state \<Rightarrow> js_error + drawing_state" where
  "drawing_event_body operation ev ds =
     (case commit_step operation ev ds of
        Inl e \<Rightarrow> Inl e
      | Inr ds1 \<Rightarrow>
          (case move_step ev ds1 of
             Inl e \<Rightarrow> Inl e
           | Inr ds2 \<Rightarrow> resize_step ev ds2))"

text \<open>
  \<open>drawing-event\<close>. The \<open>catch\<close> of the handler logs the error; the state is the one
  at the throw, which is the state at entry since only the first read of
  \<open>data.data\<close> can throw (lemma \<open>drawing_event_body_throws\<close>). With no room under
  \<open>currentRoom\<close> the drawing state is null and every path that reaches it throws.
\<close>

definition on_drawing_event ::
  "drawing_event \<Rightarrow> string \<Rightarrow> nat \<Rightarrow> socket \<Rightarrow> room_manager \<Rightarrow> room_manager" where
  "on_drawing_event ev uuid now sock rm =
     (case joined sock of
        None \<Rightarrow> rm
      | Some (a, r) \<Rightarrow>
          (case getDrawingState r rm of
             None \<Rightarrow> rm
           | Some ds \<Rightarrow>
               (let cu = heap rm ! a;
                    operation = \<lparr>op_id = uuid, op_type = ev_type ev, userId = user_id cu,
                       userName = user_name cu, userColor = user_color cu, timestamp = now,
                       op_data = ev_data ev, undone = False\<rparr>
                in case drawing_event_body operation ev ds of
                     Inl e \<Rightarrow> rm
                   | Inr ds' \<Rightarrow> put_drawingState r ds' rm)))"

definition on_undo_request :: "socket \<Rightarrow> room_manager \<Rightarrow> room_manager" where
  "on_undo_request sock rm =
     (case joined sock of
        None \<Rightarrow> rm
      | Some (a, r) \<Rightarrow>
          (case getDrawingState r rm of
             None \<Rightarrow> rm
           | Some ds \<Rightarrow> put_drawingState r (snd (undo (user_id (heap rm ! a)) ds)) rm))"

definition on_redo_request :: "socket \<Rightarrow> room_manager \<Rightarrow> room_manager" where
  "on_redo_request sock rm =
     (case joined sock of
        None \<Rightarrow> rm
      | Some (a, r) \<Rightarrow>
          (case getDrawingState r rm of
             None \<Rightarrow> rm
           | Some ds \<Rightarrow> put_drawingState r (snd (redo (user_id (heap rm ! a)) ds)) rm))"

definition on_admin_undo :: "socket \<Rightarrow> room_manager \<Rightarrow> room_manager" where
  "on_admin_undo sock rm =
     (case joined sock of
        None \<Rightarrow> rm
      | Some (a, r) \<Rightarrow>
          (if \<not> isAdmin (heap rm ! a) then rm
           else (case getDrawingState r rm of
                   None \<Rightarrow> rm
                 | Some ds \<Rightarrow> put_drawingState r (snd (globalUndo ds)) rm)))"

definition on_admin_redo :: "socket \<Rightarrow> room_manager \<Rightarrow> room_manager" where
  "on_admin_redo sock rm =
     (case joined sock of
        None \<Rightarrow> rm
      | Some (a, r) \<Rightarrow>
          (if \<not> isAdmin (heap rm ! a) then rm
           else (case getDrawingState r rm of
                   None \<Rightarrow> rm
                 | Some ds \<Rightarrow> put_drawingState r (snd (globalRedo ds)) rm)))"

text \<open>The \<open>forEach\<close> of \<open>clear-canvas\<close>.\<close>

definition clear_mine :: "string \<Rightarrow> operation list \<Rightarrow> operation list" where
  "clear_mine uid ops = map (\<lambda>op. if userId op = uid then op\<lparr>undone := True\<rparr> else op) ops"

definition on_clear_canvas :: "socket \<Rightarrow> room_manager \<Rightarrow> room_manager" where
  "on_clear_canvas sock rm =
     (case joined sock of
        None \<Rightarrow> rm
      | Some (a, r) \<Rightarrow>
          (case getDrawingState r rm of
             None \<Rightarrow> rm
           | Some ds \<Rightarrow>
               put_drawingState r
                 (ds\<lparr>operations := clear_mine (user_id (heap rm ! a)) (operations ds)\<rparr>) rm))"

definition on_admin_clear_all :: "socket \<Rightarrow> room_manager \<Rightarrow> room_manager" where
  "on_admin_clear_all sock rm =
     (case joined sock of
        None \<Rightarrow> rm
      | Some (a, r) \<Rightarrow>
          (if \<not> isAdmin (heap rm ! a) then rm
           else (case getDrawingState r rm of
                   None \<Rightarrow> rm
                 | Some ds \<Rightarrow> put_drawingState r (clear ds) rm)))"

text \<open>
  \<open>admin-transfer\<close> calls \<open>roomManager.setAdmin(currentRoom, newAdminId)\<close>. The class
  \<open>RoomManager\<close> has the members \<open>getRoom\<close>, \<open>addUser\<close>, \<open>removeUser\<close>,
  \<open>getRoomUsers\<close>, \<open>getUserBySocketId\<close>, \<open>assignColor\<close>, \<open>getDrawingState\<close> and
  \<open>getRoomStats\<close> and no \<open>setAdmin\<close>: the property read gives undefined and calling it
  throws a TypeError, whatever the arguments and the state.
\<close>

record transfer_result =
  oldAdmin :: addr
  newAdmin :: addr

definition setAdmin ::
  "string \<Rightarrow> string \<Rightarrow> room_manager \<Rightarrow> js_error + (transfer_result option \<times> room_manager)" where
  "setAdmin rid newAdminId rm = Inl TypeError"

definition on_admin_transfer :: "string \<Rightarrow> socket \<Rightarrow> room_manager \<Rightarrow> room_manager" where
  "on_admin_transfer newAdminId sock rm =
     (case joined sock of
        None \<Rightarrow> rm
      | Some (a, r) \<Rightarrow>
          (if \<not> isAdmin (heap rm ! a) then rm
           else (case setAdmin r newAdminId rm of
                   Inl e \<Rightarrow> rm
                 | Inr (result, rm') \<Rightarrow> rm')))"

text \<open>
  \<open>disconnect\<close>: after \<open>removeUser\<close> the handler looks the room up again with
  \<open>getRoom\<close>, to notify a new admin and to send the user list.
\<close>

definition on_disconnect :: "nat \<Rightarrow> socket \<Rightarrow> room_manager \<Rightarrow> room_manager" where
  "on_disconnect now sock rm =
     (case joined sock of
        None \<Rightarrow> rm
      | Some (a, r) \<Rightarrow>
          (let rm1 = snd (removeUser r (user_id (heap rm ! a)) rm)
           in snd (getRoom r now rm1)))"

section \<open>The server as a transition system\<close>

text \<open>
  The connected sockets, by socket id, and the room manager. An event names the socket
  it arrives on and carries what the handler reads from its environment (a fresh uuid,
  the clock, the random palette index).
\<close>

record server =
  manager :: room_manager
  sockets :: "(string \<times> socket) list"

definition new_server :: server where
  "new_server = \<lparr>manager = new_RoomManager, sockets = []\<rparr>"

datatype event =
    Connect string
  | JoinRoom string string string string nat nat
  | DrawingEvent string drawing_event string nat
  | UndoRequest string
  | RedoRequest string
  | AdminUndo string
  | AdminRedo string
  | ClearCanvas string
  | AdminClearAll string
  | AdminKick string string nat
  | AdminTransfer string string
  | Disconnect string nat

text \<open>
  \<open>admin-kick-user\<close> disconnects the socket of the target user, which runs that
  socket's \<open>disconnect\<close> handler.
\<close>

definition on_admin_kick_user :: "string \<Rightarrow> nat \<Rightarrow> socket \<Rightarrow> server \<Rightarrow> server" where
  "on_admin_kick_user targetUserId now sock srv =
     (case joined sock of
        None \<Rightarrow> srv
      | Some (a, r) \<Rightarrow>
          (if \<not> isAdmin (heap (manager srv) ! a) then srv
           else
             (let (room, rm1) = getRoom r now (manager srv)
              in case map_of (users room) targetUserId of
                   None \<Rightarrow> srv\<lparr>manager := rm1\<rparr>
                 | Some ta \<Rightarrow>
                     (let tsid = socketId (heap rm1 ! ta)
                      in case map_of (sockets srv) tsid of
                           None \<Rightarrow> srv\<lparr>manager := rm1\<rparr>
                         | Some tsock \<Rightarrow>
                             srv\<lparr>manager := on_disconnect now tsock rm1,
                                 sockets := map_delete tsid (sockets srv)\<rparr>))))"

definition with_socket :: "string \<Rightarrow> (socket \<Rightarrow> room_manager \<Rightarrow> room_manager) \<Rightarrow> server \<Rightarrow> server" where
  "with_socket sid handler srv =
     (case map_of (sockets srv) sid of
        None \<Rightarrow> srv
      | Some sock \<Rightarrow> srv\<lparr>manager := handler sock (manager srv)\<rparr>)"

fun step :: "event \<Rightarrow> server \<Rightarrow> server" where
  "step (Connect sid) srv =
     (case map_of (sockets srv) sid of
        None \<Rightarrow> srv\<lparr>sockets := map_set sid new_socket (sockets srv)\<rparr>
      | Some sock \<Rightarrow> srv)"
| "step (JoinRoom sid rid uname uuid now rnd) srv =
     (case map_of (sockets srv) sid of
        None \<Rightarrow> srv
      | Some sock \<Rightarrow>
          (let (sock', rm') = on_join_room sid rid uname uuid now rnd (manager srv)
           in srv\<lparr>manager := rm', sockets := map_set sid sock' (sockets srv)\<rparr>))"
| "step (DrawingEvent sid ev uuid now) srv = with_socket sid (on_drawing_event ev uuid now) srv"
| "step (UndoRequest sid) srv = with_socket sid on_undo_request srv"
| "step (RedoRequest sid) srv = with_socket sid on_redo_request srv"
| "step (AdminUndo sid) srv = with_socket sid on_admin_undo srv"
| "step (AdminRedo sid) srv = with_socket sid on_admin_redo srv"
| "step (ClearCanvas sid) srv = with_socket sid on_clear_canvas srv"
| "step (AdminClearAll sid) srv = with_socket sid on_admin_clear_all srv"
| "step (AdminKick sid targetUserId now) srv =
     (case map_of (sockets srv) sid of
        None \<Rightarrow> srv
      | Some sock \<Rightarrow> on_admin_kick_user targetUserId now sock srv)"
| "step (AdminTransfer sid newAdminId) srv = with_socket sid (on_admin_transfer newAdminId) srv"
| "step (Disconnect sid now) srv =
     (case map_of (sockets srv) sid of
        None \<Rightarrow> srv
      | Some sock \<Rightarrow>
          srv\<lparr>manager := on_disconnect now sock (manager srv),
              sockets := map_delete sid (sockets srv)\<rparr>)"

definition run :: "event list \<Rightarrow> server \<Rightarrow> server" where
  "run evs srv = foldl (\<lambda>s e. step e s) srv evs"

section \<open>The reconciler of the client (client/canvas.js)\<close>

text \<open>
  \<open>CanvasManager.addOperation\<close>, as far as it touches the local history
  \<open>this.operations\<close>. The preview branches and the streaming branch update preview and
  stroke state only and return.
\<close>

definition has_operationId :: "operation \<Rightarrow> bool" where
  "has_operationId operation =
     (case op_data operation of None \<Rightarrow> False | Some d \<Rightarrow> truthy (operationId d))"

text \<open>
  Lines 1562 to 1582: reconciliation by \<open>tempId\<close>, then the check for an entry with the
  same id, then the push.
\<close>

definition pending_index :: "operation \<Rightarrow> operation list \<Rightarrow> nat option" where
  "pending_index operation ops =
     (case op_data operation of
        None \<Rightarrow> None
      | Some d \<Rightarrow> if truthy (tempId d) then findIndex (id_is (tempId d)) ops else None)"

definition reconcile :: "operation \<Rightarrow> operation list \<Rightarrow> operation list" where
  "reconcile operation ops =
     (case pending_index operation ops of
        Some i \<Rightarrow> ops[i := operation]
      | None \<Rightarrow>
          (case find (\<lambda>op. op_id op = op_id operation) ops of
             None \<Rightarrow> ops @ [operation]
           | Some ex \<Rightarrow> ops))"

definition client_addOperation :: "operation \<Rightarrow> operation list \<Rightarrow> operation list" where
  "client_addOperation operation ops =
     (if op_type operation = ''clear'' then []
      else if op_type operation = ''shape-preview'' then ops
      else if op_type operation = ''text-preview'' then ops
      else if op_type operation = ''move-preview'' then ops
      else if op_type operation = ''move'' \<and> has_operationId operation
        then (case op_data operation of None \<Rightarrow> ops | Some d \<Rightarrow> move_existing d ops)
      else if op_type operation = ''resize'' \<and> has_operationId operation
        then (case op_data operation of None \<Rightarrow> ops | Some d \<Rightarrow> resize_existing d ops)
      else if op_type operation = ''draw-incremental'' then ops
      else reconcile operation ops)"

section \<open>Call sequences on a drawing state\<close>

text \<open>The public mutators of \<open>DrawingState\<close>, as calls that can be put in sequence.\<close>

datatype ds_call =
    AddOperation operation
  | Undo string
  | Redo string
  | GlobalUndo
  | GlobalRedo
  | Clear

fun apply_call :: "ds_call \<Rightarrow> drawing_state \<Rightarrow> drawing_state" where
  "apply_call (AddOperation operation) ds = snd (addOperation operation ds)"
| "apply_call (Undo u) ds = snd (undo u ds)"
| "apply_call (Redo u) ds = snd (redo u ds)"
| "apply_call GlobalUndo ds = snd (globalUndo ds)"
| "apply_call GlobalRedo ds = snd (globalRedo ds)"
| "apply_call Clear ds = clear ds"

definition run_calls :: "ds_call list \<Rightarrow> drawing_state \<Rightarrow> drawing_state" where
  "run_calls calls ds = foldl (\<lambda>s c. apply_call c s) ds calls"

fun is_add :: "ds_call \<Rightarrow> bool" where
  "is_add (AddOperation operation) = True"
| "is_add c = False"

section \<open>Predicates of the statements\<close>

text \<open>The append cursor points at the last entry.\<close>

definition cursor_ok :: "drawing_state \<Rightarrow> bool" where
  "cursor_ok ds \<longleftrightarrow> currentIndex ds = int (length (operations ds)) - 1"

text \<open>
  The condition of the \<open>if\<close> that guards \<open>addOperation\<close> in \<open>drawing-event\<close>, as a
  predicate of \<open>data.type\<close> and \<open>data.data\<close>: a durable type, or a payload whose
  \<open>isComplete\<close> is truthy.
\<close>

definition commit_cond :: "string \<Rightarrow> payload option \<Rightarrow> bool" where
  "commit_cond t d \<longleftrightarrow>
     t = ''draw'' \<or> t = ''shape'' \<or> t = ''text'' \<or> t = ''image'' \<or>
     (case d of None \<Rightarrow> False | Some p \<Rightarrow> truthy (isComplete p))"

definition log_inv :: "drawing_state \<Rightarrow> bool" where
  "log_inv ds \<longleftrightarrow>
     cursor_ok ds \<and> list_all (\<lambda>op. commit_cond (op_type op) (op_data op)) (operations ds)"

definition rooms_inv :: "room_manager \<Rightarrow> bool" where
  "rooms_inv rm \<longleftrightarrow> list_all (\<lambda>p. log_inv (drawingState (snd p))) (rooms rm)"

text \<open>What a log entry keeps through \<open>move\<close> and \<open>resize\<close> updates.\<close>

definition entry_key :: "operation \<Rightarrow> string \<times> string \<times> string \<times> bool" where
  "entry_key operation = (op_id operation, op_type operation, userId operation, undone operation)"

text \<open>
  The operations of the history that \<open>join-room\<close> sends to a client joining the room
  (empty when the room is not in the registry; \<open>join-room\<close> itself creates it).
\<close>

definition room_log :: "string \<Rightarrow> server \<Rightarrow> operation list" where
  "room_log rid srv =
     (case getDrawingState rid (manager srv) of
        None \<Rightarrow> []
      | Some ds \<Rightarrow> h_operations (getOperationHistory ds))"

text \<open>The log with every entry of one user active again and the others as they are.\<close>

definition restore_mine :: "string \<Rightarrow> operation list \<Rightarrow> operation list" where
  "restore_mine uid ops = map (\<lambda>op. if userId op = uid then op\<lparr>undone := False\<rparr> else op) ops"

definition count_mine :: "string \<Rightarrow> operation list \<Rightarrow> nat" where
  "count_mine uid ops = length (filter (\<lambda>op. userId op = uid) ops)"

definition is_durable :: "string \<Rightarrow> bool" where
  "is_durable t \<longleftrightarrow> t = ''draw'' \<or> t = ''shape'' \<or> t = ''text'' \<or> t = ''image''"

text \<open>
  The operations that get past the early returns of \<open>CanvasManager.addOperation\<close> and
  reach the reconciliation block.
\<close>

definition reaches_reconcile :: "operation \<Rightarrow> bool" where
  "reaches_reconcile operation \<longleftrightarrow>
     op_type operation \<noteq> ''clear'' \<and> op_type operation \<noteq> ''shape-preview'' \<and>
     op_type operation \<noteq> ''text-preview'' \<and> op_type operation \<noteq> ''move-preview'' \<and>
     \<not> (op_type operation = ''move'' \<and> has_operationId operation) \<and>
     \<not> (op_type operation = ''resize'' \<and> has_operationId operation) \<and>
     op_type operation \<noteq> ''draw-incremental''"

text \<open>The room is in the registry.\<close>

definition has_room :: "string \<Rightarrow> room_manager \<Rightarrow> bool" where
  "has_room r rm \<longleftrightarrow> map_of (rooms rm) r \<noteq> None"

text \<open>Every connected socket that passes the guard of the handlers has its room.\<close>

definition sockets_inv :: "server \<Rightarrow> bool" where
  "sockets_inv srv \<longleftrightarrow>
     list_all (\<lambda>p. case joined (snd p) of None \<Rightarrow> True | Some (a, r) \<Rightarrow> has_room r (manager srv))
       (sockets srv)"

section \<open>Fixtures\<close>

text \<open>Small logs, payloads and event sequences for the concrete instances below.\<close>

definition mk_op :: "string \<Rightarrow> string \<Rightarrow> string \<Rightarrow> bool \<Rightarrow> operation" where
  "mk_op i ty u f =
     \<lparr>op_id = i, op_type = ty, userId = u, userName = u, userColor = ''#FF6B6B'',
      timestamp = 0, op_data = None, undone = f\<rparr>"

definition mk_log :: "operation list \<Rightarrow> drawing_state" where
  "mk_log ops =
     \<lparr>roomId = ''R'', operations = ops, currentIndex = int (length ops) - 1,
      referenceSize = JNull\<rparr>"

definition abc_log :: drawing_state where
  "abc_log = mk_log [mk_op ''A'' ''draw'' ''u'' False, mk_op ''B'' ''draw'' ''u'' False,
     mk_op ''C'' ''draw'' ''u'' False]"

text \<open>The payload of a finished stroke, and of a segment of a stroke in progress.\<close>

definition stroke :: payload where
  "stroke = \<lparr>isComplete = JBool True, operationId = JUndefined, tempId = JUndefined,
     tool = JStr ''brush'', data_x = JUndefined, data_y = JUndefined, data_width = JNum 2,
     data_height = JUndefined\<rparr>"

definition segment :: payload where
  "segment = stroke\<lparr>isComplete := JBool False\<rparr>"

text \<open>One, two and three users in room R; X joins first.\<close>

definition one_user :: "event list" where
  "one_user =
     [Connect ''s1'', JoinRoom ''s1'' ''R'' ''X'' ''uX'' 1 0,
      DrawingEvent ''s1'' \<lparr>ev_type = ''draw'', ev_data = Some stroke\<rparr> ''A'' 2]"

definition joined_xy :: "event list" where
  "joined_xy =
     [Connect ''s1'', Connect ''s2'',
      JoinRoom ''s1'' ''R'' ''X'' ''uX'' 1 0, JoinRoom ''s2'' ''R'' ''Y'' ''uY'' 2 0]"

definition two_strokes :: "event list" where
  "two_strokes = joined_xy @
     [DrawingEvent ''s1'' \<lparr>ev_type = ''draw'', ev_data = Some stroke\<rparr> ''A'' 3,
      DrawingEvent ''s2'' \<lparr>ev_type = ''draw'', ev_data = Some stroke\<rparr> ''B'' 4]"

definition xy_scenario :: "event list" where
  "xy_scenario =
     [Connect ''s1'', Connect ''s2'',
      JoinRoom ''s1'' ''R'' ''X'' ''uX'' 1 0, JoinRoom ''s2'' ''R'' ''Y'' ''uY'' 2 0,
      DrawingEvent ''s1'' \<lparr>ev_type = ''draw'', ev_data = Some stroke\<rparr> ''A'' 3,
      DrawingEvent ''s2'' \<lparr>ev_type = ''draw'', ev_data = Some stroke\<rparr> ''B'' 4,
      Disconnect ''s1'' 5, AdminUndo ''s2'']"

definition joined_xyz :: "event list" where
  "joined_xyz =
     [Connect ''s1'', Connect ''s2'', Connect ''s3'',
      JoinRoom ''s1'' ''R'' ''X'' ''uX'' 1 0, JoinRoom ''s2'' ''R'' ''Y'' ''uY'' 2 0,
      JoinRoom ''s3'' ''R'' ''Z'' ''uZ'' 3 0]"

definition room_xyz :: room where
  "room_xyz =
     \<lparr>room_id = ''R'', users = [(''uX'', 0), (''uY'', 1), (''uZ'', 2)],
      drawingState = new_DrawingState ''R'', adminId = Some ''uX'', createdAt = 1\<rparr>"

text \<open>The variables of the sockets of X and Y after they joined.\<close>

definition socket_X :: socket where
  "socket_X = \<lparr>currentUser = Some 0, currentRoom = Some ''R''\<rparr>"

definition socket_Y :: socket where
  "socket_Y = \<lparr>currentUser = Some 1, currentRoom = Some ''R''\<rparr>"

text \<open>
  A placeholder as the client makes it for a finished shape, and the operation the
  server broadcasts for it.
\<close>

definition pending_shape :: operation where
  "pending_shape =
     \<lparr>op_id = ''temp-1'', op_type = ''shape'', userId = '''', userName = '''', userColor = '''',
      timestamp = 0, op_data = Some (stroke\<lparr>tempId := JStr ''temp-1''\<rparr>), undone = False\<rparr>"

definition confirmed_shape :: operation where
  "confirmed_shape =
     \<lparr>op_id = ''S1'', op_type = ''shape'', userId = ''uX'', userName = ''X'',
      userColor = ''#FF6B6B'', timestamp = 5,
      op_data = Some (stroke\<lparr>tempId := JStr ''temp-1''\<rparr>), undone = False\<rparr>"

section \<open>Properties of the undo scan\<close>

lemma undo_scan_Some:
  "undo_scan ops u n = Some i \<Longrightarrow>
     i < n \<and> userId (ops ! i) = u \<and> \<not> undone (ops ! i) \<and>
     (\<forall>j. i < j \<and> j < n \<longrightarrow> \<not> (userId (ops ! j) = u \<and> \<not> undone (ops ! j)))"
proof (induction n)
  case 0
  then show ?case by simp
next
  case (Suc n)
  show ?case
  proof (cases "userId (ops ! n) = u \<and> \<not> undone (ops ! n)")
    case True
    with Suc.prems have "i = n" by simp
    with True show ?thesis by auto
  next
    case False
    with Suc.prems have "undo_scan ops u n = Some i" by auto
    from Suc.IH [OF this] False show ?thesis
      by (auto simp: less_Suc_eq)
  qed
qed

lemma undo_scan_None:
  "undo_scan ops u n = None \<longleftrightarrow> (\<forall>j < n. \<not> (userId (ops ! j) = u \<and> \<not> undone (ops ! j)))"
  by (induction n) (auto simp: less_Suc_eq)

section \<open>Undo by user\<close>

text \<open>
  Claim C1. \<open>undo userId\<close> scans the log from the last entry toward the first. It
  returns null, leaving the log as it is, exactly when no entry is both authored by
  \<open>userId\<close> and active. Otherwise it flips the last such entry to \<open>undone = true\<close>
  and returns it. The length of the log is kept and every entry of another author stays
  at its position, unchanged.
\<close>

theorem undo_by_user:
  "let ops = operations ds;
       r = fst (undo u ds);
       ds' = snd (undo u ds);
       active = (\<lambda>j. j < length ops \<and> userId (ops ! j) = u \<and> \<not> undone (ops ! j))
   in (r = None \<longleftrightarrow> (\<forall>j. \<not> active j)) \<and>
      (r = None \<longrightarrow> ds' = ds) \<and>
      (\<forall>e. r = Some e \<longrightarrow>
         (\<exists>i. active i \<and> (\<forall>j>i. \<not> active j) \<and>
              e = (ops ! i)\<lparr>undone := True\<rparr> \<and>
              ds' = ds\<lparr>operations := ops[i := e]\<rparr>)) \<and>
      length (operations ds') = length ops \<and>
      (\<forall>j < length ops. userId (ops ! j) \<noteq> u \<longrightarrow> operations ds' ! j = ops ! j)"
proof (cases "undo_scan (operations ds) u (length (operations ds))")
  case None
  then have "undo u ds = (None, ds)"
    by (simp add: undo_def)
  moreover from None have "\<forall>j < length (operations ds).
      \<not> (userId (operations ds ! j) = u \<and> \<not> undone (operations ds ! j))"
    by (simp add: undo_scan_None)
  ultimately show ?thesis
    by (auto simp: Let_def)
next
  case (Some i)
  define e where "e = (operations ds ! i)\<lparr>undone := True\<rparr>"
  from Some have u: "undo u ds = (Some e, ds\<lparr>operations := (operations ds)[i := e]\<rparr>)"
    by (simp add: undo_def set_undone_def e_def Let_def)
  from undo_scan_Some [OF Some]
  have i: "i < length (operations ds)" "userId (operations ds ! i) = u"
      "\<not> undone (operations ds ! i)"
    and later: "\<forall>j. i < j \<and> j < length (operations ds) \<longrightarrow>
      \<not> (userId (operations ds ! j) = u \<and> \<not> undone (operations ds ! j))"
    by blast+
  have frame: "\<forall>j < length (operations ds). userId (operations ds ! j) \<noteq> u \<longrightarrow>
      (operations ds)[i := e] ! j = operations ds ! j"
    using i by (auto simp: nth_list_update)
  show ?thesis
    unfolding Let_def u fst_conv snd_conv
    using i later frame e_def by (auto intro!: exI [of _ i])
qed

theorem undo_by_user_witness:
  "undo ''u1'' (mk_log [mk_op ''A'' ''draw'' ''u1'' False, mk_op ''B'' ''draw'' ''u2'' False,
       mk_op ''C'' ''draw'' ''u1'' True])
   = (Some (mk_op ''A'' ''draw'' ''u1'' True),
      mk_log [mk_op ''A'' ''draw'' ''u1'' True, mk_op ''B'' ''draw'' ''u2'' False,
       mk_op ''C'' ''draw'' ''u1'' True])"
  using undo_by_user [of "mk_log [mk_op ''A'' ''draw'' ''u1'' False,
       mk_op ''B'' ''draw'' ''u2'' False, mk_op ''C'' ''draw'' ''u1'' True]" "''u1''"]
  by (simp add: undo_def set_undone_def mk_log_def mk_op_def numeral_3_eq_3 Let_def)

section \<open>Properties of the redo scan\<close>

lemma redo_scan_Some:
  "redo_scan ops u k = Some i \<Longrightarrow>
     k \<le> i \<and> i < length ops \<and> userId (ops ! i) = u \<and> undone (ops ! i) \<and>
     (\<forall>j. k \<le> j \<and> j < i \<longrightarrow> \<not> (userId (ops ! j) = u \<and> undone (ops ! j)))"
proof (induction ops u k rule: redo_scan.induct)
  case (1 ops u k)
  show ?case
  proof (cases "k < length ops \<and> \<not> (userId (ops ! k) = u \<and> undone (ops ! k))")
    case True
    with "1.prems" have "redo_scan ops u (Suc k) = Some i"
      by (subst (asm) redo_scan.simps) auto
    from "1.IH" [OF _ _ this] True
    have "Suc k \<le> i \<and> i < length ops \<and> userId (ops ! i) = u \<and> undone (ops ! i) \<and>
          (\<forall>j. Suc k \<le> j \<and> j < i \<longrightarrow> \<not> (userId (ops ! j) = u \<and> undone (ops ! j)))"
      by blast
    with True show ?thesis
      by (metis Suc_leD Suc_leI le_neq_implies_less)
  next
    case False
    with "1.prems" show ?thesis
      by (subst (asm) redo_scan.simps) (auto split: if_splits)
  qed
qed

lemma redo_scan_None:
  "redo_scan ops u k = None \<longleftrightarrow>
     (\<forall>j. k \<le> j \<and> j < length ops \<longrightarrow> \<not> (userId (ops ! j) = u \<and> undone (ops ! j)))"
proof (induction ops u k rule: redo_scan.induct)
  case (1 ops u k)
  show ?case
  proof (cases "k < length ops")
    case False
    then show ?thesis
      by (subst redo_scan.simps) auto
  next
    case len: True
    show ?thesis
    proof (cases "userId (ops ! k) = u \<and> undone (ops ! k)")
      case True
      with len show ?thesis
        by (subst redo_scan.simps) auto
    next
      case False
      with len have "redo_scan ops u k = redo_scan ops u (Suc k)"
        by (subst redo_scan.simps) auto
      with "1.IH" [OF len False] False show ?thesis
        by (metis Suc_leD Suc_leI le_neq_implies_less)
    qed
  qed
qed

lemma redo_scan_first:
  assumes "i < length ops" "userId (ops ! i) = u" "undone (ops ! i)"
    and "\<forall>j < i. \<not> (userId (ops ! j) = u \<and> undone (ops ! j))"
  shows "redo_scan ops u 0 = Some i"
proof (cases "redo_scan ops u 0")
  case None
  with assms show ?thesis
    by (simp add: redo_scan_None)
next
  case (Some i')
  from redo_scan_Some [OF Some] assms have "i' = i"
    by (metis le0 linorder_neqE_nat)
  with Some show ?thesis by simp
qed

lemma undo_scan_last:
  assumes "i < n" "userId (ops ! i) = u" "\<not> undone (ops ! i)"
    and "\<forall>j. i < j \<and> j < n \<longrightarrow> \<not> (userId (ops ! j) = u \<and> \<not> undone (ops ! j))"
  shows "undo_scan ops u n = Some i"
proof (cases "undo_scan ops u n")
  case None
  with assms show ?thesis
    by (simp add: undo_scan_None)
next
  case (Some i')
  from undo_scan_Some [OF Some] assms have "i' = i"
    by (metis linorder_neqE_nat)
  with Some show ?thesis by simp
qed

lemma undone_False_id: "\<not> undone r \<Longrightarrow> r\<lparr>undone := False\<rparr> = r"
  by (cases r) simp

lemma undone_True_id: "undone r \<Longrightarrow> r\<lparr>undone := True\<rparr> = r"
  by (cases r) simp

lemma redo_spec:
  "let ops = operations ds;
       r = fst (redo u ds);
       ds' = snd (redo u ds);
       flagged = (\<lambda>j. j < length ops \<and> userId (ops ! j) = u \<and> undone (ops ! j))
   in (r = None \<longleftrightarrow> (\<forall>j. \<not> flagged j)) \<and>
      (r = None \<longrightarrow> ds' = ds) \<and>
      (\<forall>e. r = Some e \<longrightarrow>
         (\<exists>i. flagged i \<and> (\<forall>j<i. \<not> flagged j) \<and>
              e = (ops ! i)\<lparr>undone := False\<rparr> \<and>
              ds' = ds\<lparr>operations := ops[i := e]\<rparr>))"
proof (cases "redo_scan (operations ds) u 0")
  case None
  then have "redo u ds = (None, ds)"
    by (simp add: redo_def)
  moreover from None have "\<forall>j < length (operations ds).
      \<not> (userId (operations ds ! j) = u \<and> undone (operations ds ! j))"
    by (simp add: redo_scan_None)
  ultimately show ?thesis
    by (auto simp: Let_def)
next
  case (Some i)
  define e where "e = (operations ds ! i)\<lparr>undone := False\<rparr>"
  from Some have r: "redo u ds = (Some e, ds\<lparr>operations := (operations ds)[i := e]\<rparr>)"
    by (simp add: redo_def set_undone_def e_def Let_def)
  from redo_scan_Some [OF Some]
  have i: "i < length (operations ds)" "userId (operations ds ! i) = u"
      "undone (operations ds ! i)"
    and earlier: "\<forall>j<i. \<not> (userId (operations ds ! j) = u \<and> undone (operations ds ! j))"
    by auto
  show ?thesis
    unfolding Let_def r fst_conv snd_conv
    using i earlier e_def by (auto intro!: exI [of _ i])
qed

lemma undo_redo_inverse:
  assumes act: "\<exists>k < length (operations ds). userId (operations ds ! k) = u \<and> \<not> undone (operations ds ! k)"
  shows "snd (redo u (snd (undo u ds))) = ds \<longleftrightarrow>
     \<not> (\<exists>j k. j < k \<and> k < length (operations ds) \<and>
          userId (operations ds ! j) = u \<and> undone (operations ds ! j) \<and>
          userId (operations ds ! k) = u \<and> \<not> undone (operations ds ! k))"
proof -
  define ops where "ops = operations ds"
  from act have "undo_scan ops u (length ops) \<noteq> None"
    by (simp add: undo_scan_None ops_def)
  then obtain i where scan: "undo_scan ops u (length ops) = Some i"
    by blast
  from undo_scan_Some [OF scan]
  have i: "i < length ops" "userId (ops ! i) = u" "\<not> undone (ops ! i)"
    and later: "\<forall>k. i < k \<and> k < length ops \<longrightarrow> \<not> (userId (ops ! k) = u \<and> \<not> undone (ops ! k))"
    by blast+
  define ops1 where "ops1 = ops[i := (ops ! i)\<lparr>undone := True\<rparr>]"
  have ds1: "snd (undo u ds) = ds\<lparr>operations := ops1\<rparr>"
    using scan by (simp add: undo_def set_undone_def ops_def ops1_def Let_def)
  have len1: "length ops1 = length ops"
    by (simp add: ops1_def)
  have at_i: "userId (ops1 ! i) = u" "undone (ops1 ! i)"
    using i by (simp_all add: ops1_def)
  have other: "ops1 ! j = ops ! j" if "j \<noteq> i" for j
    using that by (simp add: ops1_def)
  have older_iff: "(\<exists>j<i. userId (ops ! j) = u \<and> undone (ops ! j)) \<longleftrightarrow>
     (\<exists>j k. j < k \<and> k < length ops \<and> userId (ops ! j) = u \<and> undone (ops ! j) \<and>
          userId (ops ! k) = u \<and> \<not> undone (ops ! k))"
  proof
    assume "\<exists>j<i. userId (ops ! j) = u \<and> undone (ops ! j)"
    with i show "\<exists>j k. j < k \<and> k < length ops \<and> userId (ops ! j) = u \<and> undone (ops ! j) \<and>
          userId (ops ! k) = u \<and> \<not> undone (ops ! k)"
      by blast
  next
    assume "\<exists>j k. j < k \<and> k < length ops \<and> userId (ops ! j) = u \<and> undone (ops ! j) \<and>
          userId (ops ! k) = u \<and> \<not> undone (ops ! k)"
    then obtain j k where jk: "j < k" "k < length ops" "userId (ops ! j) = u" "undone (ops ! j)"
        "userId (ops ! k) = u" "\<not> undone (ops ! k)"
      by blast
    have "k \<le> i"
    proof (rule ccontr)
      assume "\<not> k \<le> i"
      then have "i < k" by simp
      with later jk show False
        by blast
    qed
    with jk have "j < i" by simp
    with jk show "\<exists>j<i. userId (ops ! j) = u \<and> undone (ops ! j)"
      by blast
  qed
  show ?thesis
  proof (cases "\<exists>j<i. userId (ops ! j) = u \<and> undone (ops ! j)")
    case False
    then have "\<forall>j<i. \<not> (userId (ops1 ! j) = u \<and> undone (ops1 ! j))"
      using other by auto
    with i at_i len1 have "redo_scan ops1 u 0 = Some i"
      by (intro redo_scan_first) auto
    then have "snd (redo u (ds\<lparr>operations := ops1\<rparr>)) =
        ds\<lparr>operations := ops1[i := (ops1 ! i)\<lparr>undone := False\<rparr>]\<rparr>"
      by (simp add: redo_def set_undone_def Let_def)
    also have "ops1[i := (ops1 ! i)\<lparr>undone := False\<rparr>] = ops"
      using i by (simp add: ops1_def undone_False_id)
    finally have "snd (redo u (snd (undo u ds))) = ds"
      by (simp add: ds1 ops_def)
    moreover from False older_iff
    have "\<not> (\<exists>j k. j < k \<and> k < length ops \<and> userId (ops ! j) = u \<and> undone (ops ! j) \<and>
          userId (ops ! k) = u \<and> \<not> undone (ops ! k))"
      by blast
    ultimately show ?thesis
      unfolding ops_def by blast
  next
    case True
    then obtain j where j: "j < i" "userId (ops ! j) = u" "undone (ops ! j)"
      by blast
    then have "userId (ops1 ! j) = u \<and> undone (ops1 ! j)" "j < length ops1"
      using other i len1 by auto
    then have "redo_scan ops1 u 0 \<noteq> None"
      by (auto simp: redo_scan_None)
    then obtain j' where scan': "redo_scan ops1 u 0 = Some j'"
      by blast
    from redo_scan_Some [OF scan']
    have j': "j' < length ops1" "userId (ops1 ! j') = u" "undone (ops1 ! j')"
      and first: "\<forall>m<j'. \<not> (userId (ops1 ! m) = u \<and> undone (ops1 ! m))"
      by auto
    have "j' \<le> j"
    proof (rule ccontr)
      assume "\<not> j' \<le> j"
      then have "j < j'" by simp
      with first \<open>userId (ops1 ! j) = u \<and> undone (ops1 ! j)\<close> show False
        by blast
    qed
    with j have "j' \<noteq> i" by simp
    with j' other have was: "undone (ops ! j')" by simp
    from scan' have "snd (redo u (ds\<lparr>operations := ops1\<rparr>)) =
        ds\<lparr>operations := ops1[j' := (ops1 ! j')\<lparr>undone := False\<rparr>]\<rparr>"
      by (simp add: redo_def set_undone_def Let_def)
    then have "operations (snd (redo u (snd (undo u ds)))) ! j' = (ops1 ! j')\<lparr>undone := False\<rparr>"
      using j' by (simp add: ds1)
    then have "\<not> undone (operations (snd (redo u (snd (undo u ds)))) ! j')"
      by simp
    with was have "snd (redo u (snd (undo u ds))) \<noteq> ds"
      by (auto simp: ops_def)
    moreover from True older_iff
    have "\<exists>j k. j < k \<and> k < length ops \<and> userId (ops ! j) = u \<and> undone (ops ! j) \<and>
          userId (ops ! k) = u \<and> \<not> undone (ops ! k)"
      by blast
    ultimately show ?thesis
      unfolding ops_def by blast
  qed
qed

lemma abc_fixture:
  "undo ''u'' abc_log =
     (Some (mk_op ''C'' ''draw'' ''u'' True),
      mk_log [mk_op ''A'' ''draw'' ''u'' False, mk_op ''B'' ''draw'' ''u'' False,
        mk_op ''C'' ''draw'' ''u'' True])"
  "undo ''u'' (snd (undo ''u'' abc_log)) =
     (Some (mk_op ''B'' ''draw'' ''u'' True),
      mk_log [mk_op ''A'' ''draw'' ''u'' False, mk_op ''B'' ''draw'' ''u'' True,
        mk_op ''C'' ''draw'' ''u'' True])"
  "redo ''u'' (snd (undo ''u'' (snd (undo ''u'' abc_log)))) =
     (Some (mk_op ''B'' ''draw'' ''u'' False),
      mk_log [mk_op ''A'' ''draw'' ''u'' False, mk_op ''B'' ''draw'' ''u'' False,
        mk_op ''C'' ''draw'' ''u'' True])"
  by (simp_all add: abc_log_def undo_def redo_def set_undone_def mk_log_def mk_op_def
      numeral_3_eq_3 Let_def redo_scan.simps)

section \<open>Redo by user\<close>

text \<open>
  Claim C2, as amended. \<open>redo userId\<close> scans the log from the first entry toward the
  last, flips the first entry that is authored by \<open>userId\<close> and undone back to
  \<open>undone = false\<close> and returns it; it returns null and changes nothing exactly when
  there is no such entry. On the log A, B, C of one user, \<open>undo\<close> flags C, a second
  \<open>undo\<close> flags B and the following \<open>redo\<close> restores B, not C. For a user with an
  active entry, \<open>undo\<close> followed by \<open>redo\<close> gives the log back exactly when no undone
  entry of the user precedes an active entry of the user; with such an older undone
  entry, \<open>redo\<close> restores that one instead of the entry just undone.
\<close>

theorem redo_oldest_undone:
  "(let ops = operations ds;
        r = fst (redo u ds);
        ds' = snd (redo u ds);
        flagged = (\<lambda>j. j < length ops \<and> userId (ops ! j) = u \<and> undone (ops ! j))
    in (r = None \<longleftrightarrow> (\<forall>j. \<not> flagged j)) \<and>
       (r = None \<longrightarrow> ds' = ds) \<and>
       (\<forall>e. r = Some e \<longrightarrow>
          (\<exists>i. flagged i \<and> (\<forall>j<i. \<not> flagged j) \<and>
               e = (ops ! i)\<lparr>undone := False\<rparr> \<and>
               ds' = ds\<lparr>operations := ops[i := e]\<rparr>))) \<and>
   fst (undo ''u'' abc_log) = Some (mk_op ''C'' ''draw'' ''u'' True) \<and>
   fst (undo ''u'' (snd (undo ''u'' abc_log))) = Some (mk_op ''B'' ''draw'' ''u'' True) \<and>
   redo ''u'' (snd (undo ''u'' (snd (undo ''u'' abc_log)))) =
     (Some (mk_op ''B'' ''draw'' ''u'' False),
      mk_log [mk_op ''A'' ''draw'' ''u'' False, mk_op ''B'' ''draw'' ''u'' False,
        mk_op ''C'' ''draw'' ''u'' True]) \<and>
   ((\<exists>k < length (operations ds). userId (operations ds ! k) = u \<and> \<not> undone (operations ds ! k)) \<longrightarrow>
      (snd (redo u (snd (undo u ds))) = ds \<longleftrightarrow>
         \<not> (\<exists>j k. j < k \<and> k < length (operations ds) \<and>
              userId (operations ds ! j) = u \<and> undone (operations ds ! j) \<and>
              userId (operations ds ! k) = u \<and> \<not> undone (operations ds ! k))))"
proof (intro conjI impI)
  show "let ops = operations ds;
        r = fst (redo u ds);
        ds' = snd (redo u ds);
        flagged = (\<lambda>j. j < length ops \<and> userId (ops ! j) = u \<and> undone (ops ! j))
    in (r = None \<longleftrightarrow> (\<forall>j. \<not> flagged j)) \<and>
       (r = None \<longrightarrow> ds' = ds) \<and>
       (\<forall>e. r = Some e \<longrightarrow>
          (\<exists>i. flagged i \<and> (\<forall>j<i. \<not> flagged j) \<and>
               e = (ops ! i)\<lparr>undone := False\<rparr> \<and>
               ds' = ds\<lparr>operations := ops[i := e]\<rparr>))"
    by (rule redo_spec)
next
  show "fst (undo ''u'' abc_log) = Some (mk_op ''C'' ''draw'' ''u'' True)"
    by (simp add: abc_fixture(1))
next
  show "fst (undo ''u'' (snd (undo ''u'' abc_log))) = Some (mk_op ''B'' ''draw'' ''u'' True)"
    by (simp only: abc_fixture(2) fst_conv)
next
  show "redo ''u'' (snd (undo ''u'' (snd (undo ''u'' abc_log)))) =
     (Some (mk_op ''B'' ''draw'' ''u'' False),
      mk_log [mk_op ''A'' ''draw'' ''u'' False, mk_op ''B'' ''draw'' ''u'' False,
        mk_op ''C'' ''draw'' ''u'' True])"
    by (rule abc_fixture(3))
next
  assume "\<exists>k < length (operations ds). userId (operations ds ! k) = u \<and> \<not> undone (operations ds ! k)"
  then show "snd (redo u (snd (undo u ds))) = ds \<longleftrightarrow>
         \<not> (\<exists>j k. j < k \<and> k < length (operations ds) \<and>
              userId (operations ds ! j) = u \<and> undone (operations ds ! j) \<and>
              userId (operations ds ! k) = u \<and> \<not> undone (operations ds ! k))"
    by (rule undo_redo_inverse)
qed

text \<open>
  The instance: in the log A (undone), B, C of one user, \<open>redo\<close> restores A, and
  \<open>undo\<close> followed by \<open>redo\<close> does not give the log back.
\<close>

theorem redo_oldest_undone_witness:
  "redo ''u'' (mk_log [mk_op ''A'' ''draw'' ''u'' True, mk_op ''B'' ''draw'' ''u'' False,
       mk_op ''C'' ''draw'' ''u'' False]) =
     (Some (mk_op ''A'' ''draw'' ''u'' False),
      mk_log [mk_op ''A'' ''draw'' ''u'' False, mk_op ''B'' ''draw'' ''u'' False,
        mk_op ''C'' ''draw'' ''u'' False]) \<and>
   snd (redo ''u'' (snd (undo ''u'' (mk_log [mk_op ''A'' ''draw'' ''u'' True,
       mk_op ''B'' ''draw'' ''u'' False, mk_op ''C'' ''draw'' ''u'' False])))) \<noteq>
     mk_log [mk_op ''A'' ''draw'' ''u'' True, mk_op ''B'' ''draw'' ''u'' False,
       mk_op ''C'' ''draw'' ''u'' False]"
  using redo_oldest_undone [of "mk_log [mk_op ''A'' ''draw'' ''u'' True,
       mk_op ''B'' ''draw'' ''u'' False, mk_op ''C'' ''draw'' ''u'' False]" "''u''"]
  by (simp add: undo_def redo_def set_undone_def mk_log_def mk_op_def
      numeral_3_eq_3 Let_def redo_scan.simps)

text \<open>
  The claim as stated fails on its own fixture: with three active entries of the user,
  \<open>undo\<close> followed by \<open>redo\<close> is the identity.
\<close>

theorem undo_redo_inverse_counterexample:
  "length (filter (\<lambda>op. userId op = ''u'' \<and> \<not> undone op) (operations abc_log)) = 3 \<and>
   snd (redo ''u'' (snd (undo ''u'' abc_log))) = abc_log"
  by (simp add: abc_log_def undo_def redo_def set_undone_def mk_log_def mk_op_def
      numeral_3_eq_3 Let_def redo_scan.simps)

section \<open>Global undo\<close>

lemma globalUndo_scan_Some:
  "globalUndo_scan ops n = Some i \<Longrightarrow>
     i < n \<and> \<not> undone (ops ! i) \<and> (\<forall>j. i < j \<and> j < n \<longrightarrow> undone (ops ! j))"
proof (induction n)
  case 0
  then show ?case by simp
next
  case (Suc n)
  show ?case
  proof (cases "undone (ops ! n)")
    case False
    with Suc.prems have "i = n" by simp
    with False show ?thesis by auto
  next
    case True
    with Suc.prems have "globalUndo_scan ops n = Some i" by simp
    from Suc.IH [OF this] True show ?thesis
      by (auto simp: less_Suc_eq)
  qed
qed

lemma globalUndo_scan_None:
  "globalUndo_scan ops n = None \<longleftrightarrow> (\<forall>j < n. undone (ops ! j))"
  by (induction n) (auto simp: less_Suc_eq)

lemma globalUndo_spec:
  "let ops = operations ds;
       r = fst (globalUndo ds);
       ds' = snd (globalUndo ds);
       active = (\<lambda>j. j < length ops \<and> \<not> undone (ops ! j))
   in (r = None \<longleftrightarrow> (\<forall>j. \<not> active j)) \<and>
      (r = None \<longrightarrow> ds' = ds) \<and>
      (\<forall>e. r = Some e \<longrightarrow>
         (\<exists>i. active i \<and> (\<forall>j>i. \<not> active j) \<and>
              e = (ops ! i)\<lparr>undone := True\<rparr> \<and>
              ds' = ds\<lparr>operations := ops[i := e]\<rparr>))"
proof (cases "globalUndo_scan (operations ds) (length (operations ds))")
  case None
  then have "globalUndo ds = (None, ds)"
    by (simp add: globalUndo_def)
  moreover from None have "\<forall>j < length (operations ds). undone (operations ds ! j)"
    by (simp add: globalUndo_scan_None)
  ultimately show ?thesis
    by (auto simp: Let_def)
next
  case (Some i)
  define e where "e = (operations ds ! i)\<lparr>undone := True\<rparr>"
  from Some have g: "globalUndo ds = (Some e, ds\<lparr>operations := (operations ds)[i := e]\<rparr>)"
    by (simp add: globalUndo_def set_undone_def e_def Let_def)
  from globalUndo_scan_Some [OF Some]
  have i: "i < length (operations ds)" "\<not> undone (operations ds ! i)"
    and later: "\<forall>j. i < j \<and> j < length (operations ds) \<longrightarrow> undone (operations ds ! j)"
    by blast+
  show ?thesis
    unfolding Let_def g fst_conv snd_conv
    using i later e_def by (auto intro!: exI [of _ i])
qed

lemma xy_scenario_log:
  "map (\<lambda>op. (op_id op, userId op, undone op)) (room_log ''R'' (run xy_scenario new_server)) =
     [(''A'', ''uX'', False), (''B'', ''uY'', True)]"
  by code_simp

text \<open>
  Claim C3. \<open>globalUndo\<close> never reads the author: it returns null, changing
  nothing, exactly when every entry is undone, and otherwise flips the last entry that
  is not undone and returns it. On the log A (by X), B (by Y) it flags B. The same holds
  on the server: X and Y join room R, X commits A, Y commits B, X leaves, Y, now admin,
  sends \<open>admin-undo\<close>; the log then holds A active and B undone.
\<close>

theorem globalUndo_most_recent:
  "(let ops = operations ds;
        r = fst (globalUndo ds);
        ds' = snd (globalUndo ds);
        active = (\<lambda>j. j < length ops \<and> \<not> undone (ops ! j))
    in (r = None \<longleftrightarrow> (\<forall>j. \<not> active j)) \<and>
       (r = None \<longrightarrow> ds' = ds) \<and>
       (\<forall>e. r = Some e \<longrightarrow>
          (\<exists>i. active i \<and> (\<forall>j>i. \<not> active j) \<and>
               e = (ops ! i)\<lparr>undone := True\<rparr> \<and>
               ds' = ds\<lparr>operations := ops[i := e]\<rparr>))) \<and>
   globalUndo (mk_log [mk_op ''A'' ''draw'' ''X'' False, mk_op ''B'' ''draw'' ''Y'' False]) =
     (Some (mk_op ''B'' ''draw'' ''Y'' True),
      mk_log [mk_op ''A'' ''draw'' ''X'' False, mk_op ''B'' ''draw'' ''Y'' True]) \<and>
   map (\<lambda>op. (op_id op, userId op, undone op)) (room_log ''R'' (run xy_scenario new_server)) =
     [(''A'', ''uX'', False), (''B'', ''uY'', True)]"
proof (intro conjI)
  show "let ops = operations ds;
        r = fst (globalUndo ds);
        ds' = snd (globalUndo ds);
        active = (\<lambda>j. j < length ops \<and> \<not> undone (ops ! j))
    in (r = None \<longleftrightarrow> (\<forall>j. \<not> active j)) \<and>
       (r = None \<longrightarrow> ds' = ds) \<and>
       (\<forall>e. r = Some e \<longrightarrow>
          (\<exists>i. active i \<and> (\<forall>j>i. \<not> active j) \<and>
               e = (ops ! i)\<lparr>undone := True\<rparr> \<and>
               ds' = ds\<lparr>operations := ops[i := e]\<rparr>))"
    by (rule globalUndo_spec)
next
  show "globalUndo (mk_log [mk_op ''A'' ''draw'' ''X'' False, mk_op ''B'' ''draw'' ''Y'' False]) =
     (Some (mk_op ''B'' ''draw'' ''Y'' True),
      mk_log [mk_op ''A'' ''draw'' ''X'' False, mk_op ''B'' ''draw'' ''Y'' True])"
    by (simp add: globalUndo_def set_undone_def mk_log_def mk_op_def numeral_2_eq_2 Let_def)
next
  show "map (\<lambda>op. (op_id op, userId op, undone op)) (room_log ''R'' (run xy_scenario new_server)) =
     [(''A'', ''uX'', False), (''B'', ''uY'', True)]"
    by (rule xy_scenario_log)
qed

theorem globalUndo_most_recent_witness:
  "globalUndo (mk_log [mk_op ''A'' ''draw'' ''X'' False, mk_op ''B'' ''shape'' ''Y'' False,
       mk_op ''C'' ''draw'' ''X'' True]) =
     (Some (mk_op ''B'' ''shape'' ''Y'' True),
      mk_log [mk_op ''A'' ''draw'' ''X'' False, mk_op ''B'' ''shape'' ''Y'' True,
       mk_op ''C'' ''draw'' ''X'' True])"
  using globalUndo_most_recent [of "mk_log [mk_op ''A'' ''draw'' ''X'' False,
       mk_op ''B'' ''shape'' ''Y'' False, mk_op ''C'' ''draw'' ''X'' True]"]
  by (simp add: globalUndo_def set_undone_def mk_log_def mk_op_def numeral_3_eq_3 Let_def)

section \<open>The append cursor\<close>

lemma js_slice0_all: "js_slice0 xs (int (length xs)) = xs"
  by (simp add: js_slice0_def)

lemma cursor_ok_slice: "cursor_ok ds \<Longrightarrow> js_slice0 (operations ds) (currentIndex ds + 1) = operations ds"
  by (simp add: cursor_ok_def js_slice0_all)

lemma cursor_ok_new: "cursor_ok (new_DrawingState r)"
  by (simp add: cursor_ok_def new_DrawingState_def)

lemma addOperation_operations:
  "cursor_ok ds \<Longrightarrow>
     operations (snd (addOperation operation ds)) = operations ds @ [operation\<lparr>undone := False\<rparr>]"
  by (simp add: addOperation_def cursor_ok_slice)

lemma cursor_ok_addOperation: "cursor_ok ds \<Longrightarrow> cursor_ok (snd (addOperation operation ds))"
  by (simp add: addOperation_def cursor_ok_slice) (simp add: cursor_ok_def)

lemma cursor_ok_operations_update:
  "cursor_ok ds \<Longrightarrow> length ops = length (operations ds) \<Longrightarrow> cursor_ok (ds\<lparr>operations := ops\<rparr>)"
  by (simp add: cursor_ok_def)

lemma set_undone_shape:
  "snd (set_undone i b ds) = ds\<lparr>operations := (operations ds)[i := (operations ds ! i)\<lparr>undone := b\<rparr>]\<rparr>"
  by (simp add: set_undone_def Let_def)

lemma cursor_ok_set_undone: "cursor_ok ds \<Longrightarrow> cursor_ok (snd (set_undone i b ds))"
  by (simp add: set_undone_shape cursor_ok_operations_update)

lemma cursor_ok_undo: "cursor_ok ds \<Longrightarrow> cursor_ok (snd (undo u ds))"
  by (simp add: undo_def cursor_ok_set_undone split: option.split)

lemma cursor_ok_redo: "cursor_ok ds \<Longrightarrow> cursor_ok (snd (redo u ds))"
  by (simp add: redo_def cursor_ok_set_undone split: option.split)

lemma cursor_ok_globalUndo: "cursor_ok ds \<Longrightarrow> cursor_ok (snd (globalUndo ds))"
  by (simp add: globalUndo_def cursor_ok_set_undone split: option.split)

lemma cursor_ok_globalRedo: "cursor_ok ds \<Longrightarrow> cursor_ok (snd (globalRedo ds))"
  by (simp add: globalRedo_def cursor_ok_set_undone split: option.split)

lemma cursor_ok_clear: "cursor_ok (clear ds)"
  by (simp add: cursor_ok_def clear_def)

lemma cursor_ok_apply_call: "cursor_ok ds \<Longrightarrow> cursor_ok (apply_call c ds)"
  by (cases c)
    (simp_all add: cursor_ok_addOperation cursor_ok_undo cursor_ok_redo cursor_ok_globalUndo
      cursor_ok_globalRedo cursor_ok_clear)

lemma cursor_ok_run_calls: "cursor_ok ds \<Longrightarrow> cursor_ok (run_calls calls ds)"
  unfolding run_calls_def
  by (induction calls arbitrary: ds) (simp_all add: cursor_ok_apply_call)

text \<open>
  Claim C10. In every state that a sequence of \<open>addOperation\<close>, \<open>undo\<close>, \<open>redo\<close>,
  \<open>globalUndo\<close>, \<open>globalRedo\<close> and \<open>clear\<close> calls builds from a new drawing state,
  \<open>currentIndex\<close> is \<open>operations.length - 1\<close>. So the slice to \<open>currentIndex + 1\<close>
  is the whole array, \<open>addOperation\<close> appends to it without dropping an entry, and
  \<open>getActiveOperations\<close> is the whole array filtered by \<open>undone = false\<close>.
\<close>

theorem cursor_tracks_length:
  "currentIndex (run_calls calls (new_DrawingState r)) =
     int (length (operations (run_calls calls (new_DrawingState r)))) - 1 \<and>
   js_slice0 (operations (run_calls calls (new_DrawingState r)))
       (currentIndex (run_calls calls (new_DrawingState r)) + 1) =
     operations (run_calls calls (new_DrawingState r)) \<and>
   operations (snd (addOperation operation (run_calls calls (new_DrawingState r)))) =
     operations (run_calls calls (new_DrawingState r)) @ [operation\<lparr>undone := False\<rparr>] \<and>
   getActiveOperations (run_calls calls (new_DrawingState r)) =
     filter (\<lambda>op. \<not> undone op) (operations (run_calls calls (new_DrawingState r)))"
proof -
  have ok: "cursor_ok (run_calls calls (new_DrawingState r))"
    by (simp add: cursor_ok_run_calls cursor_ok_new)
  then show ?thesis
    by (simp add: cursor_ok_slice addOperation_operations getActiveOperations_def)
      (simp add: cursor_ok_def)
qed

theorem cursor_tracks_length_witness:
  "currentIndex (run_calls [AddOperation (mk_op ''A'' ''draw'' ''u'' False), Undo ''u'',
       AddOperation (mk_op ''B'' ''draw'' ''v'' False), GlobalRedo]
     (new_DrawingState ''R'')) = 1 \<and>
   getActiveOperations (run_calls [AddOperation (mk_op ''A'' ''draw'' ''u'' False), Undo ''u'',
       AddOperation (mk_op ''B'' ''draw'' ''v'' False), GlobalRedo]
     (new_DrawingState ''R'')) =
     [mk_op ''A'' ''draw'' ''u'' False, mk_op ''B'' ''draw'' ''v'' False]"
  using cursor_tracks_length [of "[AddOperation (mk_op ''A'' ''draw'' ''u'' False), Undo ''u'',
       AddOperation (mk_op ''B'' ''draw'' ''v'' False), GlobalRedo]" "''R''"]
  by (simp add: run_calls_def new_DrawingState_def addOperation_def undo_def globalRedo_def
      set_undone_def mk_op_def js_slice0_def Let_def globalRedo_scan.simps)

section \<open>Maps and lists\<close>

lemma set_map_set: "set (map_set k v m) \<subseteq> insert (k, v) (set m)"
  by (induction m) auto

lemma set_map_delete: "set (map_delete k m) \<subseteq> set m"
  by (auto simp: map_delete_def)

lemma map_of_map_set_same: "map_of (map_set k v m) k = Some v"
  by (induction m) auto

lemma map_of_map_set_other: "k' \<noteq> k \<Longrightarrow> map_of (map_set k v m) k' = map_of m k'"
  by (induction m) auto

lemma map_of_map_delete_same: "map_of (map_delete k m) k = None"
  by (induction m) (auto simp: map_delete_def)

lemma list_all_map_set:
  "list_all P m \<Longrightarrow> P (k, v) \<Longrightarrow> list_all P (map_set k v m)"
  using set_map_set [of k v m] by (auto simp: list_all_iff)

lemma list_all_map_delete: "list_all P m \<Longrightarrow> list_all P (map_delete k m)"
  by (simp add: map_delete_def list_all_iff)

lemma list_all_update:
  "list_all P xs \<Longrightarrow> (i < length xs \<Longrightarrow> P y) \<Longrightarrow> list_all P (xs[i := y])"
  by (cases "i < length xs")
    (auto simp: list_all_iff list_update_beyond dest: set_update_subset_insert [THEN subsetD])

lemma map_update_same: "f y = f (xs ! i) \<Longrightarrow> map f (xs[i := y]) = map f xs"
proof (cases "i < length xs")
  case True
  assume "f y = f (xs ! i)"
  with True have "(map f xs)[i := f y] = (map f xs)[i := map f xs ! i]"
    by simp
  then show ?thesis
    by (simp only: map_update list_update_id)
next
  case False
  then show ?thesis
    by (simp add: list_update_beyond)
qed

lemma list_all_nth: "list_all P xs \<Longrightarrow> i < length xs \<Longrightarrow> P (xs ! i)"
  by (simp add: list_all_iff)

lemma findIndex_Some:
  "findIndex P xs = Some i \<Longrightarrow> i < length xs \<and> P (xs ! i) \<and> (\<forall>j<i. \<not> P (xs ! j))"
proof (induction xs arbitrary: i)
  case Nil
  then show ?case by simp
next
  case (Cons x xs)
  show ?case
  proof (cases "P x")
    case True
    with Cons.prems show ?thesis by simp
  next
    case False
    with Cons.prems obtain k where k: "findIndex P xs = Some k" "i = Suc k"
      by auto
    from Cons.IH [OF k(1)] False k(2) show ?thesis
      by (auto simp: nth_Cons split: nat.split)
  qed
qed

lemma findIndex_None: "findIndex P xs = None \<longleftrightarrow> (\<forall>x \<in> set xs. \<not> P x)"
  by (induction xs) auto

section \<open>The log invariant through the drawing state\<close>

lemma entry_key_move_existing: "map entry_key (move_existing d ops) = map entry_key ops"
  by (auto simp: move_existing_def entry_key_def intro!: map_update_same split: option.split)

lemma entry_key_resize_existing: "map entry_key (resize_existing d ops) = map entry_key ops"
  by (auto simp: resize_existing_def entry_key_def intro!: map_update_same split: option.split)

lemma length_move_existing: "length (move_existing d ops) = length ops"
  using entry_key_move_existing [of d ops] by (metis length_map)

lemma length_resize_existing: "length (resize_existing d ops) = length ops"
  using entry_key_resize_existing [of d ops] by (metis length_map)

lemma commit_cond_move_existing:
  assumes "list_all (\<lambda>op. commit_cond (op_type op) (op_data op)) ops"
  shows "list_all (\<lambda>op. commit_cond (op_type op) (op_data op)) (move_existing d ops)"
proof (cases "findIndex (id_is (operationId d)) ops")
  case None
  with assms show ?thesis by (simp add: move_existing_def)
next
  case (Some i)
  show ?thesis
  proof (cases "op_data (ops ! i)")
    case None
    with Some assms show ?thesis by (simp add: move_existing_def)
  next
    case (Some ed)
    have "commit_cond (op_type (ops ! i)) (Some (ed\<lparr>data_x := data_x d, data_y := data_y d\<rparr>))"
      if "i < length ops"
      using list_all_nth [OF assms that] Some by (simp add: commit_cond_def)
    with assms Some \<open>findIndex (id_is (operationId d)) ops = Some i\<close> show ?thesis
      by (simp add: move_existing_def list_all_update)
  qed
qed

lemma commit_cond_resize_existing:
  assumes "list_all (\<lambda>op. commit_cond (op_type op) (op_data op)) ops"
  shows "list_all (\<lambda>op. commit_cond (op_type op) (op_data op)) (resize_existing d ops)"
proof (cases "findIndex (id_is (operationId d)) ops")
  case None
  with assms show ?thesis by (simp add: resize_existing_def)
next
  case (Some i)
  show ?thesis
  proof (cases "op_data (ops ! i)")
    case None
    with Some assms show ?thesis by (simp add: resize_existing_def)
  next
    case (Some ed)
    have "commit_cond (op_type (ops ! i))
        (Some (ed\<lparr>data_width := data_width d, data_height := data_height d\<rparr>))"
      if "i < length ops"
      using list_all_nth [OF assms that] Some by (simp add: commit_cond_def)
    with assms Some \<open>findIndex (id_is (operationId d)) ops = Some i\<close> show ?thesis
      by (simp add: resize_existing_def list_all_update)
  qed
qed

lemma log_inv_new: "log_inv (new_DrawingState r)"
  by (simp add: log_inv_def cursor_ok_new) (simp add: new_DrawingState_def)

lemma log_inv_addOperation:
  "log_inv ds \<Longrightarrow> commit_cond (op_type operation) (op_data operation) \<Longrightarrow>
     log_inv (snd (addOperation operation ds))"
  by (simp add: log_inv_def cursor_ok_addOperation addOperation_operations)

lemma log_inv_operations_update:
  "log_inv ds \<Longrightarrow> length ops = length (operations ds) \<Longrightarrow>
     list_all (\<lambda>op. commit_cond (op_type op) (op_data op)) ops \<Longrightarrow>
     log_inv (ds\<lparr>operations := ops\<rparr>)"
  by (simp add: log_inv_def cursor_ok_operations_update)

lemma log_inv_set_undone: "log_inv ds \<Longrightarrow> log_inv (snd (set_undone i b ds))"
  unfolding set_undone_shape
  by (rule log_inv_operations_update) (auto simp: log_inv_def intro!: list_all_update dest: list_all_nth)

lemma log_inv_undo: "log_inv ds \<Longrightarrow> log_inv (snd (undo u ds))"
  by (simp add: undo_def log_inv_set_undone split: option.split)

lemma log_inv_redo: "log_inv ds \<Longrightarrow> log_inv (snd (redo u ds))"
  by (simp add: redo_def log_inv_set_undone split: option.split)

lemma log_inv_globalUndo: "log_inv ds \<Longrightarrow> log_inv (snd (globalUndo ds))"
  by (simp add: globalUndo_def log_inv_set_undone split: option.split)

lemma log_inv_globalRedo: "log_inv ds \<Longrightarrow> log_inv (snd (globalRedo ds))"
  by (simp add: globalRedo_def log_inv_set_undone split: option.split)

lemma log_inv_clear: "log_inv (clear ds)"
  by (simp add: log_inv_def cursor_ok_clear) (simp add: clear_def)

lemma log_inv_clear_mine:
  "log_inv ds \<Longrightarrow> log_inv (ds\<lparr>operations := clear_mine uid (operations ds)\<rparr>)"
  by (rule log_inv_operations_update) (auto simp: clear_mine_def log_inv_def list_all_iff)

section \<open>The log invariant through the room manager and the handlers\<close>

lemma rooms_inv_getDrawingState:
  "rooms_inv rm \<Longrightarrow> getDrawingState r rm = Some ds \<Longrightarrow> log_inv ds"
  by (auto simp: rooms_inv_def getDrawingState_def list_all_iff dest!: map_of_SomeD)

lemma rooms_inv_map_of:
  "rooms_inv rm \<Longrightarrow> map_of (rooms rm) r = Some room \<Longrightarrow> log_inv (drawingState room)"
  by (auto simp: rooms_inv_def list_all_iff dest!: map_of_SomeD)

lemma rooms_inv_put_drawingState:
  "rooms_inv rm \<Longrightarrow> log_inv ds \<Longrightarrow> rooms_inv (put_drawingState r ds rm)"
  by (auto simp: rooms_inv_def put_drawingState_def intro!: list_all_map_set split: option.split)

lemma rooms_inv_heap_update: "rooms_inv (rm\<lparr>heap := h\<rparr>) = rooms_inv rm"
  by (simp add: rooms_inv_def)

lemma rooms_inv_new: "rooms_inv new_RoomManager"
  by (simp add: rooms_inv_def new_RoomManager_def)

lemma getRoom_inv:
  assumes "rooms_inv rm"
  shows "rooms_inv (snd (getRoom r now rm))" and "log_inv (drawingState (fst (getRoom r now rm)))"
proof -
  show "rooms_inv (snd (getRoom r now rm))"
    using assms
    by (auto simp: getRoom_def rooms_inv_def Let_def log_inv_new intro!: list_all_map_set
        split: option.split)
  show "log_inv (drawingState (fst (getRoom r now rm)))"
    using assms rooms_inv_map_of [OF assms]
    by (auto simp: getRoom_def Let_def log_inv_new split: option.split)
qed

lemma rooms_inv_addUser:
  assumes "rooms_inv rm"
  shows "rooms_inv (snd (addUser r uid uname sid now rnd rm))"
proof -
  obtain room rm1 where g: "getRoom r now rm = (room, rm1)"
    by (cases "getRoom r now rm")
  from getRoom_inv [OF assms, of r now] g have "rooms_inv rm1" "log_inv (drawingState room)"
    by simp_all
  then show ?thesis
    by (simp add: addUser_def g Let_def rooms_inv_def list_all_map_set)
qed

lemma rooms_inv_removeUser:
  assumes "rooms_inv rm"
  shows "rooms_inv (snd (removeUser r uid rm))"
proof (cases "map_of (rooms rm) r")
  case None
  with assms show ?thesis by (simp add: removeUser_def)
next
  case (Some room)
  from rooms_inv_map_of [OF assms Some] have "log_inv (drawingState room)" .
  with assms Some show ?thesis
    by (simp add: removeUser_def Let_def rooms_inv_def list_all_map_set list_all_map_delete)
qed

lemma rooms_inv_on_join_room:
  "rooms_inv rm \<Longrightarrow> rooms_inv (snd (on_join_room sid r uname uuid now rnd rm))"
  using rooms_inv_addUser [of rm r uuid uname sid now rnd]
  by (cases "addUser r uuid uname sid now rnd rm") (simp add: on_join_room_def)

lemma log_inv_move_existing:
  "log_inv ds \<Longrightarrow> log_inv (ds\<lparr>operations := move_existing d (operations ds)\<rparr>)"
  by (rule log_inv_operations_update)
    (simp_all add: length_move_existing commit_cond_move_existing log_inv_def)

lemma log_inv_resize_existing:
  "log_inv ds \<Longrightarrow> log_inv (ds\<lparr>operations := resize_existing d (operations ds)\<rparr>)"
  by (rule log_inv_operations_update)
    (simp_all add: length_resize_existing commit_cond_resize_existing log_inv_def)

lemma log_inv_drawing_event_body:
  assumes "log_inv ds" "op_type operation = ev_type ev" "op_data operation = ev_data ev"
    and "drawing_event_body operation ev ds = Inr ds'"
  shows "log_inv ds'"
proof -
  from assms(4) obtain ds1 ds2 where
    c: "commit_step operation ev ds = Inr ds1" and
    m: "move_step ev ds1 = Inr ds2" and
    r: "resize_step ev ds2 = Inr ds'"
    by (auto simp: drawing_event_body_def split: sum.splits)
  from c assms(1-3) have 1: "log_inv ds1"
    by (auto simp: commit_step_def commit_cond_def intro!: log_inv_addOperation
        split: if_splits option.splits)
  from m 1 have 2: "log_inv ds2"
    by (auto simp: move_step_def log_inv_move_existing split: if_splits option.splits)
  from r 2 show ?thesis
    by (auto simp: resize_step_def log_inv_resize_existing split: if_splits option.splits)
qed

lemma rooms_inv_on_drawing_event:
  assumes "rooms_inv rm"
  shows "rooms_inv (on_drawing_event ev uuid now sock rm)"
proof (cases "joined sock")
  case None
  with assms show ?thesis by (simp add: on_drawing_event_def)
next
  case (Some p)
  obtain a r where p: "p = (a, r)" by (cases p)
  show ?thesis
  proof (cases "getDrawingState r rm")
    case None
    with assms Some p show ?thesis by (simp add: on_drawing_event_def)
  next
    case ds: (Some ds)
    define operation where "operation = \<lparr>op_id = uuid, op_type = ev_type ev,
        userId = user_id (heap rm ! a), userName = user_name (heap rm ! a),
        userColor = user_color (heap rm ! a), timestamp = now,
        op_data = ev_data ev, undone = False\<rparr>"
    have eq: "on_drawing_event ev uuid now sock rm =
        (case drawing_event_body operation ev ds of
           Inl e \<Rightarrow> rm
         | Inr ds' \<Rightarrow> put_drawingState r ds' rm)"
      by (simp add: on_drawing_event_def Some p ds operation_def Let_def)
    from rooms_inv_getDrawingState [OF assms ds] have inv: "log_inv ds" .
    show ?thesis
    proof (cases "drawing_event_body operation ev ds")
      case (Inl e)
      with assms eq show ?thesis by simp
    next
      case (Inr ds')
      have "log_inv ds'"
        by (rule log_inv_drawing_event_body [OF inv _ _ Inr]) (simp_all add: operation_def)
      with assms eq Inr show ?thesis
        by (simp add: rooms_inv_put_drawingState)
    qed
  qed
qed

lemma rooms_inv_on_undo_request: "rooms_inv rm \<Longrightarrow> rooms_inv (on_undo_request sock rm)"
  unfolding on_undo_request_def
  by (auto split: option.split intro!: rooms_inv_put_drawingState log_inv_undo
      dest: rooms_inv_getDrawingState)

lemma rooms_inv_on_redo_request: "rooms_inv rm \<Longrightarrow> rooms_inv (on_redo_request sock rm)"
  unfolding on_redo_request_def
  by (auto split: option.split intro!: rooms_inv_put_drawingState log_inv_redo
      dest: rooms_inv_getDrawingState)

lemma rooms_inv_on_admin_undo: "rooms_inv rm \<Longrightarrow> rooms_inv (on_admin_undo sock rm)"
  unfolding on_admin_undo_def
  by (auto split: option.split intro!: rooms_inv_put_drawingState log_inv_globalUndo
      dest: rooms_inv_getDrawingState)

lemma rooms_inv_on_admin_redo: "rooms_inv rm \<Longrightarrow> rooms_inv (on_admin_redo sock rm)"
  unfolding on_admin_redo_def
  by (auto split: option.split intro!: rooms_inv_put_drawingState log_inv_globalRedo
      dest: rooms_inv_getDrawingState)

lemma rooms_inv_on_clear_canvas: "rooms_inv rm \<Longrightarrow> rooms_inv (on_clear_canvas sock rm)"
  unfolding on_clear_canvas_def
  by (auto split: option.split intro!: rooms_inv_put_drawingState log_inv_clear_mine
      dest: rooms_inv_getDrawingState)

lemma rooms_inv_on_admin_clear_all: "rooms_inv rm \<Longrightarrow> rooms_inv (on_admin_clear_all sock rm)"
  unfolding on_admin_clear_all_def
  by (auto split: option.split intro!: rooms_inv_put_drawingState log_inv_clear
      dest: rooms_inv_getDrawingState)

lemma on_admin_transfer_unchanged: "on_admin_transfer newAdminId sock rm = rm"
  by (simp add: on_admin_transfer_def setAdmin_def split: option.split prod.split)

lemma rooms_inv_on_disconnect: "rooms_inv rm \<Longrightarrow> rooms_inv (on_disconnect now sock rm)"
  by (auto simp: on_disconnect_def Let_def intro!: getRoom_inv(1) rooms_inv_removeUser
      split: option.split prod.split)

lemma rooms_inv_on_admin_kick_user:
  assumes "rooms_inv (manager srv)"
  shows "rooms_inv (manager (on_admin_kick_user target now sock srv))"
proof (cases "joined sock")
  case None
  with assms show ?thesis by (simp add: on_admin_kick_user_def)
next
  case (Some p)
  obtain a r where p: "p = (a, r)" by (cases p)
  obtain room rm1 where g: "getRoom r now (manager srv) = (room, rm1)"
    by (cases "getRoom r now (manager srv)")
  from getRoom_inv(1) [OF assms, of r now] g have "rooms_inv rm1" by simp
  with assms Some p g show ?thesis
    by (auto simp: on_admin_kick_user_def Let_def rooms_inv_on_disconnect split: option.split)
qed

lemma rooms_inv_with_socket:
  "(\<And>sock rm. rooms_inv rm \<Longrightarrow> rooms_inv (handler sock rm)) \<Longrightarrow>
   rooms_inv (manager srv) \<Longrightarrow> rooms_inv (manager (with_socket sid handler srv))"
  by (simp add: with_socket_def split: option.split)

lemma rooms_inv_step:
  assumes "rooms_inv (manager srv)"
  shows "rooms_inv (manager (step e srv))"
proof (cases e)
  case (Connect sid)
  with assms show ?thesis by (simp split: option.split)
next
  case (JoinRoom sid r uname uuid now rnd)
  with assms rooms_inv_on_join_room [of "manager srv" sid r uname uuid now rnd] show ?thesis
    by (cases "on_join_room sid r uname uuid now rnd (manager srv)") (simp split: option.split)
next
  case (DrawingEvent sid ev uuid now)
  with assms show ?thesis by (simp add: rooms_inv_with_socket rooms_inv_on_drawing_event)
next
  case (UndoRequest sid)
  with assms show ?thesis by (simp add: rooms_inv_with_socket rooms_inv_on_undo_request)
next
  case (RedoRequest sid)
  with assms show ?thesis by (simp add: rooms_inv_with_socket rooms_inv_on_redo_request)
next
  case (AdminUndo sid)
  with assms show ?thesis by (simp add: rooms_inv_with_socket rooms_inv_on_admin_undo)
next
  case (AdminRedo sid)
  with assms show ?thesis by (simp add: rooms_inv_with_socket rooms_inv_on_admin_redo)
next
  case (ClearCanvas sid)
  with assms show ?thesis by (simp add: rooms_inv_with_socket rooms_inv_on_clear_canvas)
next
  case (AdminClearAll sid)
  with assms show ?thesis by (simp add: rooms_inv_with_socket rooms_inv_on_admin_clear_all)
next
  case (AdminKick sid target now)
  with assms show ?thesis by (simp add: rooms_inv_on_admin_kick_user split: option.split)
next
  case (AdminTransfer sid newAdminId)
  with assms show ?thesis by (simp add: with_socket_def on_admin_transfer_unchanged split: option.split)
next
  case (Disconnect sid now)
  with assms show ?thesis by (simp add: rooms_inv_on_disconnect split: option.split)
qed

lemma rooms_inv_run:
  "rooms_inv (manager srv) \<Longrightarrow> rooms_inv (manager (run evs srv))"
  unfolding run_def
  by (induction evs arbitrary: srv) (simp_all add: rooms_inv_step)

lemma rooms_inv_reachable: "rooms_inv (manager (run evs new_server))"
  by (rule rooms_inv_run) (simp add: new_server_def rooms_inv_new)

section \<open>The commit rule of drawing-event\<close>

lemma getDrawingState_put_same:
  "getDrawingState r rm = Some ds \<Longrightarrow> getDrawingState r (put_drawingState r ds' rm) = Some ds'"
  by (auto simp: getDrawingState_def put_drawingState_def map_of_map_set_same)

lemma getDrawingState_put_other:
  "r' \<noteq> r \<Longrightarrow> getDrawingState r' (put_drawingState r ds' rm) = getDrawingState r' rm"
  by (auto simp: getDrawingState_def put_drawingState_def map_of_map_set_other split: option.split)

lemma heap_put_drawingState: "heap (put_drawingState r ds' rm) = heap rm"
  by (simp add: put_drawingState_def split: option.split)

text \<open>
  The body throws exactly when the type is not durable and \<open>data.data\<close> is undefined,
  that is at the read of \<open>isComplete\<close>, before anything is written.
\<close>

lemma drawing_event_body_throws:
  "(\<exists>e. drawing_event_body operation ev ds = Inl e) \<longleftrightarrow>
     \<not> (ev_type ev = ''draw'' \<or> ev_type ev = ''shape'' \<or> ev_type ev = ''text'' \<or>
        ev_type ev = ''image'') \<and> ev_data ev = None"
  by (auto simp: drawing_event_body_def commit_step_def move_step_def resize_step_def
      split: sum.splits option.splits if_splits)

lemma commit_step_keys:
  assumes "cursor_ok ds" "commit_step operation ev ds = Inr ds1"
  shows "map entry_key (operations ds1) =
     map entry_key (operations ds) @
       (if commit_cond (ev_type ev) (ev_data ev) then [entry_key (operation\<lparr>undone := False\<rparr>)]
        else [])"
  using assms
  by (auto simp: commit_step_def commit_cond_def addOperation_operations
      split: if_splits option.splits)

lemma move_step_keys:
  "move_step ev ds1 = Inr ds2 \<Longrightarrow> map entry_key (operations ds2) = map entry_key (operations ds1)"
  by (auto simp: move_step_def entry_key_move_existing split: if_splits option.splits)

lemma resize_step_keys:
  "resize_step ev ds2 = Inr ds3 \<Longrightarrow> map entry_key (operations ds3) = map entry_key (operations ds2)"
  by (auto simp: resize_step_def entry_key_resize_existing split: if_splits option.splits)

lemma drawing_event_body_keys:
  assumes "cursor_ok ds" "drawing_event_body operation ev ds = Inr ds'"
  shows "map entry_key (operations ds') =
     map entry_key (operations ds) @
       (if commit_cond (ev_type ev) (ev_data ev) then [entry_key (operation\<lparr>undone := False\<rparr>)]
        else [])"
proof -
  from assms(2) obtain ds1 ds2 where
    c: "commit_step operation ev ds = Inr ds1" and
    m: "move_step ev ds1 = Inr ds2" and
    r: "resize_step ev ds2 = Inr ds'"
    by (auto simp: drawing_event_body_def split: sum.splits)
  from resize_step_keys [OF r] move_step_keys [OF m] commit_step_keys [OF assms(1) c]
  show ?thesis by simp
qed

lemma drawing_event_commit:
  assumes j: "joined sock = Some (a, r)"
    and g: "getDrawingState r rm = Some ds"
    and c: "cursor_ok ds"
  shows "\<exists>ds'. getDrawingState r (on_drawing_event ev uuid now sock rm) = Some ds' \<and>
     map entry_key (operations ds') =
       map entry_key (operations ds) @
         (if commit_cond (ev_type ev) (ev_data ev)
          then [(uuid, ev_type ev, user_id (heap rm ! a), False)] else [])"
proof -
  define operation where "operation = \<lparr>op_id = uuid, op_type = ev_type ev,
      userId = user_id (heap rm ! a), userName = user_name (heap rm ! a),
      userColor = user_color (heap rm ! a), timestamp = now,
      op_data = ev_data ev, undone = False\<rparr>"
  have eq: "on_drawing_event ev uuid now sock rm =
      (case drawing_event_body operation ev ds of
         Inl e \<Rightarrow> rm
       | Inr ds' \<Rightarrow> put_drawingState r ds' rm)"
    by (simp add: on_drawing_event_def j g operation_def Let_def)
  have key: "entry_key (operation\<lparr>undone := False\<rparr>) = (uuid, ev_type ev, user_id (heap rm ! a), False)"
    by (simp add: entry_key_def operation_def)
  show ?thesis
  proof (cases "drawing_event_body operation ev ds")
    case (Inl e)
    then have "\<not> commit_cond (ev_type ev) (ev_data ev)"
      using drawing_event_body_throws [of operation ev ds] by (auto simp: commit_cond_def)
    with Inl eq g show ?thesis by simp
  next
    case (Inr ds')
    from drawing_event_body_keys [OF c Inr] key
    have "map entry_key (operations ds') =
       map entry_key (operations ds) @
         (if commit_cond (ev_type ev) (ev_data ev)
          then [(uuid, ev_type ev, user_id (heap rm ! a), False)] else [])"
      by simp
    with Inr eq g show ?thesis
      by (simp add: getDrawingState_put_same)
  qed
qed

lemma drawing_event_other_rooms:
  "joined sock = Some (a, r) \<Longrightarrow> r' \<noteq> r \<Longrightarrow>
     getDrawingState r' (on_drawing_event ev uuid now sock rm) = getDrawingState r' rm"
  by (simp add: on_drawing_event_def Let_def getDrawingState_put_other
      split: option.split sum.split)

lemma room_log_commit_cond:
  "list_all (\<lambda>op. commit_cond (op_type op) (op_data op)) (room_log rid (run evs new_server))"
proof (cases "getDrawingState rid (manager (run evs new_server))")
  case None
  then show ?thesis by (simp add: room_log_def)
next
  case (Some ds)
  from rooms_inv_getDrawingState [OF rooms_inv_reachable Some]
  show ?thesis
    using Some by (simp add: room_log_def getOperationHistory_def log_inv_def)
qed

lemma rooms_cursor_ok:
  "getDrawingState rid (manager (run evs new_server)) = Some ds \<Longrightarrow> cursor_ok ds"
  using rooms_inv_getDrawingState [OF rooms_inv_reachable] by (simp add: log_inv_def)

section \<open>Rooms of the connected sockets\<close>

lemma map_of_map_delete_other: "k' \<noteq> k \<Longrightarrow> map_of (map_delete k m) k' = map_of m k'"
  by (induction m) (auto simp: map_delete_def)

lemma has_room_map_set:
  "has_room r rm \<or> r = k \<Longrightarrow> has_room r (rm\<lparr>rooms := map_set k v (rooms rm)\<rparr>)"
  by (cases "r = k") (auto simp: has_room_def map_of_map_set_same map_of_map_set_other)

lemma has_room_heap: "has_room r (rm\<lparr>heap := h\<rparr>) = has_room r rm"
  by (simp add: has_room_def)

lemma has_room_put_drawingState: "has_room r rm \<Longrightarrow> has_room r (put_drawingState r' ds rm)"
  by (auto simp: put_drawingState_def intro: has_room_map_set split: option.split)

lemma has_room_getRoom: "has_room r rm \<or> r = r' \<Longrightarrow> has_room r (snd (getRoom r' now rm))"
  by (cases "r = r'")
    (auto simp: getRoom_def Let_def has_room_def map_of_map_set_same map_of_map_set_other
      split: option.split)

lemma has_room_addUser:
  assumes "has_room r rm \<or> r = r'"
  shows "has_room r (snd (addUser r' uid uname sid now rnd rm))"
proof -
  obtain room rm1 where g: "getRoom r' now rm = (room, rm1)"
    by (cases "getRoom r' now rm")
  from has_room_getRoom [OF assms, of now] g have "has_room r rm1" by simp
  then have "has_room r (rm1\<lparr>rooms := map_set r' v (rooms rm1)\<rparr>)" for v
    by (simp add: has_room_map_set)
  then show ?thesis
    by (simp add: addUser_def g Let_def has_room_def)
qed

lemma has_room_removeUser:
  "has_room r rm \<Longrightarrow> r \<noteq> r' \<Longrightarrow> has_room r (snd (removeUser r' uid rm))"
  by (auto simp: removeUser_def Let_def has_room_def map_of_map_delete_other map_of_map_set_other
      split: option.split)

lemma has_room_on_disconnect:
  assumes "has_room r rm"
  shows "has_room r (on_disconnect now sock rm)"
proof (cases "joined sock")
  case None
  with assms show ?thesis by (simp add: on_disconnect_def)
next
  case (Some p)
  obtain a r' where p: "p = (a, r')" by (cases p)
  show ?thesis
  proof (cases "r = r'")
    case True
    with Some p show ?thesis
      by (simp add: on_disconnect_def Let_def has_room_getRoom)
  next
    case False
    with assms have "has_room r (snd (removeUser r' (user_id (heap rm ! a)) rm))"
      by (rule has_room_removeUser)
    with Some p show ?thesis
      by (simp add: on_disconnect_def Let_def has_room_getRoom)
  qed
qed

lemma has_room_on_drawing_event: "has_room r rm \<Longrightarrow> has_room r (on_drawing_event ev uuid now sock rm)"
  by (auto simp: on_drawing_event_def Let_def has_room_put_drawingState
      split: option.split sum.split)

lemma has_room_on_undo_request: "has_room r rm \<Longrightarrow> has_room r (on_undo_request sock rm)"
  by (auto simp: on_undo_request_def has_room_put_drawingState split: option.split)

lemma has_room_on_redo_request: "has_room r rm \<Longrightarrow> has_room r (on_redo_request sock rm)"
  by (auto simp: on_redo_request_def has_room_put_drawingState split: option.split)

lemma has_room_on_admin_undo: "has_room r rm \<Longrightarrow> has_room r (on_admin_undo sock rm)"
  by (auto simp: on_admin_undo_def has_room_put_drawingState split: option.split)

lemma has_room_on_admin_redo: "has_room r rm \<Longrightarrow> has_room r (on_admin_redo sock rm)"
  by (auto simp: on_admin_redo_def has_room_put_drawingState split: option.split)

lemma has_room_on_clear_canvas: "has_room r rm \<Longrightarrow> has_room r (on_clear_canvas sock rm)"
  by (auto simp: on_clear_canvas_def has_room_put_drawingState split: option.split)

lemma has_room_on_admin_clear_all: "has_room r rm \<Longrightarrow> has_room r (on_admin_clear_all sock rm)"
  by (auto simp: on_admin_clear_all_def has_room_put_drawingState split: option.split)

lemma has_room_on_admin_kick_user:
  assumes "has_room r (manager srv)"
  shows "has_room r (manager (on_admin_kick_user target now sock srv))"
proof (cases "joined sock")
  case None
  with assms show ?thesis by (simp add: on_admin_kick_user_def)
next
  case (Some p)
  obtain a r' where p: "p = (a, r')" by (cases p)
  obtain room rm1 where g: "getRoom r' now (manager srv) = (room, rm1)"
    by (cases "getRoom r' now (manager srv)")
  from has_room_getRoom [of r "manager srv" r' now] assms g have "has_room r rm1" by simp
  with assms Some p g show ?thesis
    by (auto simp: on_admin_kick_user_def Let_def has_room_on_disconnect split: option.split)
qed

lemma has_room_with_socket:
  "(\<And>sock rm. has_room r rm \<Longrightarrow> has_room r (handler sock rm)) \<Longrightarrow>
   has_room r (manager srv) \<Longrightarrow> has_room r (manager (with_socket sid handler srv))"
  by (simp add: with_socket_def split: option.split)

lemma has_room_step:
  assumes "has_room r (manager srv)"
  shows "has_room r (manager (step e srv))"
proof (cases e)
  case (Connect sid)
  with assms show ?thesis by (simp split: option.split)
next
  case (JoinRoom sid r' uname uuid now rnd)
  with assms has_room_addUser [of r "manager srv" r' uuid uname sid now rnd] show ?thesis
    by (cases "addUser r' uuid uname sid now rnd (manager srv)")
      (simp add: on_join_room_def split: option.split)
next
  case (DrawingEvent sid ev uuid now)
  with assms show ?thesis by (simp add: has_room_with_socket has_room_on_drawing_event)
next
  case (UndoRequest sid)
  with assms show ?thesis by (simp add: has_room_with_socket has_room_on_undo_request)
next
  case (RedoRequest sid)
  with assms show ?thesis by (simp add: has_room_with_socket has_room_on_redo_request)
next
  case (AdminUndo sid)
  with assms show ?thesis by (simp add: has_room_with_socket has_room_on_admin_undo)
next
  case (AdminRedo sid)
  with assms show ?thesis by (simp add: has_room_with_socket has_room_on_admin_redo)
next
  case (ClearCanvas sid)
  with assms show ?thesis by (simp add: has_room_with_socket has_room_on_clear_canvas)
next
  case (AdminClearAll sid)
  with assms show ?thesis by (simp add: has_room_with_socket has_room_on_admin_clear_all)
next
  case (AdminKick sid target now)
  with assms show ?thesis by (simp add: has_room_on_admin_kick_user split: option.split)
next
  case (AdminTransfer sid newAdminId)
  with assms show ?thesis by (simp add: with_socket_def on_admin_transfer_unchanged split: option.split)
next
  case (Disconnect sid now)
  with assms show ?thesis by (simp add: has_room_on_disconnect split: option.split)
qed

lemma sockets_inv_mono:
  assumes "sockets_inv srv" "\<And>r. has_room r (manager srv) \<Longrightarrow> has_room r rm'"
  shows "list_all (\<lambda>p. case joined (snd p) of None \<Rightarrow> True | Some (a, r) \<Rightarrow> has_room r rm')
       (sockets srv)"
  using assms by (auto simp: sockets_inv_def list_all_iff split: option.splits)

lemma sockets_of_step:
  "sockets (step e srv) = sockets srv \<or>
   (\<exists>sid. sockets (step e srv) = map_delete sid (sockets srv)) \<or>
   (\<exists>sid. e = Connect sid \<and> sockets (step e srv) = map_set sid new_socket (sockets srv)) \<or>
   (\<exists>sid r uname uuid now rnd.
      e = JoinRoom sid r uname uuid now rnd \<and>
      sockets (step e srv) =
        map_set sid (fst (on_join_room sid r uname uuid now rnd (manager srv))) (sockets srv))"
proof (cases e)
  case (AdminKick sid target now)
  then show ?thesis
    by (auto simp: on_admin_kick_user_def Let_def split: option.split prod.split)
next
  case (JoinRoom sid r uname uuid now rnd)
  then show ?thesis
    by (cases "on_join_room sid r uname uuid now rnd (manager srv)") (auto split: option.split)
qed (auto simp: with_socket_def split: option.split)

lemma joined_on_join_room:
  "joined (fst (on_join_room sid r uname uuid now rnd rm)) = Some (a, r') \<Longrightarrow> r' = r"
  by (cases "addUser r uuid uname sid now rnd rm")
    (auto simp: on_join_room_def joined_def split: if_splits)

lemma sockets_inv_step:
  assumes "sockets_inv srv"
  shows "sockets_inv (step e srv)"
proof -
  let ?P = "\<lambda>p. case joined (snd p) of None \<Rightarrow> True
                | Some (a, r) \<Rightarrow> has_room r (manager (step e srv))"
  have old: "list_all ?P (sockets srv)"
    by (rule sockets_inv_mono [OF assms]) (rule has_room_step)
  from sockets_of_step [of e srv] show ?thesis
  proof (elim disjE exE conjE)
    assume "sockets (step e srv) = sockets srv"
    with old show ?thesis by (simp add: sockets_inv_def)
  next
    fix sid
    assume "sockets (step e srv) = map_delete sid (sockets srv)"
    with old show ?thesis by (simp add: sockets_inv_def list_all_map_delete)
  next
    fix sid
    assume s: "sockets (step e srv) = map_set sid new_socket (sockets srv)"
    have "?P (sid, new_socket)"
      by (simp add: joined_def new_socket_def)
    with old show ?thesis
      unfolding sockets_inv_def s by (rule list_all_map_set)
  next
    fix sid r uname uuid now rnd
    assume e: "e = JoinRoom sid r uname uuid now rnd"
      and s: "sockets (step e srv) =
        map_set sid (fst (on_join_room sid r uname uuid now rnd (manager srv))) (sockets srv)"
    have "?P (sid, fst (on_join_room sid r uname uuid now rnd (manager srv)))"
    proof (cases "joined (fst (on_join_room sid r uname uuid now rnd (manager srv)))")
      case None
      then show ?thesis by simp
    next
      case (Some p)
      obtain a r' where p: "p = (a, r')" by (cases p)
      with Some joined_on_join_room have r': "r' = r" by blast
      have "has_room r (snd (addUser r uuid uname sid now rnd (manager srv)))"
        by (simp add: has_room_addUser)
      moreover from s e have "map_of (sockets srv) sid \<noteq> None \<longrightarrow>
          manager (step e srv) = snd (addUser r uuid uname sid now rnd (manager srv))"
        by (cases "addUser r uuid uname sid now rnd (manager srv)")
          (auto simp: on_join_room_def)
      moreover have "map_of (sockets srv) sid = None \<Longrightarrow> step e srv = srv"
        using e by simp
      ultimately have "has_room r (manager (step e srv)) \<or> map_of (sockets srv) sid = None"
        by auto
      then show ?thesis
      proof
        assume "has_room r (manager (step e srv))"
        with Some p r' show ?thesis by simp
      next
        assume n: "map_of (sockets srv) sid = None"
        with e have "sockets (step e srv) = sockets srv" by simp
        with s have "map_set sid (fst (on_join_room sid r uname uuid now rnd (manager srv)))
            (sockets srv) = sockets srv"
          by simp
        then have "map_of (sockets srv) sid =
            Some (fst (on_join_room sid r uname uuid now rnd (manager srv)))"
          by (metis map_of_map_set_same)
        with n show ?thesis by simp
      qed
    qed
    with old show ?thesis
      unfolding sockets_inv_def s by (rule list_all_map_set)
  qed
qed

lemma sockets_inv_run: "sockets_inv srv \<Longrightarrow> sockets_inv (run evs srv)"
  unfolding run_def
  by (induction evs arbitrary: srv) (simp_all add: sockets_inv_step)

lemma sockets_inv_reachable: "sockets_inv (run evs new_server)"
  by (rule sockets_inv_run) (simp add: sockets_inv_def new_server_def)

lemma joined_socket_has_log:
  assumes "map_of (sockets (run evs new_server)) sid = Some sock" "joined sock = Some (a, r)"
  shows "\<exists>ds. getDrawingState r (manager (run evs new_server)) = Some ds \<and> cursor_ok ds"
proof -
  from assms(1) have "(sid, sock) \<in> set (sockets (run evs new_server))"
    by (rule map_of_SomeD)
  with sockets_inv_reachable [of evs] assms(2) have "has_room r (manager (run evs new_server))"
    by (auto simp: sockets_inv_def list_all_iff)
  then obtain ds where ds: "getDrawingState r (manager (run evs new_server)) = Some ds"
    by (auto simp: has_room_def getDrawingState_def)
  with rooms_cursor_ok [OF ds] show ?thesis by simp
qed

text \<open>
  Claim C4. A \<open>drawing-event\<close> on a socket that has joined a room of the registry
  (the guard of the handler) appends one entry, with the fresh id, the type of the
  event, the sender as author and \<open>undone = false\<close>, if the type is \<open>draw\<close>, \<open>shape\<close>,
  \<open>text\<close> or \<open>image\<close> or the payload's \<open>isComplete\<close> is truthy, and appends nothing
  otherwise; the entries already there keep id, type, author and flag. In every state
  the server reaches, every connected socket that passes the guard has its room in the
  registry, with a log whose cursor is at the last entry, as assumed here.
  Consequently, after any sequence of events, every entry of the history sent to a
  joining client has a durable type or a payload marked complete: a
  \<open>draw-incremental\<close> entry with a non-final payload is never in it.
\<close>

theorem commit_rule:
  "(joined sock = Some (a, r) \<and> getDrawingState r rm = Some ds \<and> cursor_ok ds \<longrightarrow>
      (\<exists>ds'. getDrawingState r (on_drawing_event ev uuid now sock rm) = Some ds' \<and>
         map entry_key (operations ds') =
           map entry_key (operations ds) @
             (if ev_type ev = ''draw'' \<or> ev_type ev = ''shape'' \<or> ev_type ev = ''text'' \<or>
                 ev_type ev = ''image'' \<or>
                 (case ev_data ev of None \<Rightarrow> False | Some p \<Rightarrow> truthy (isComplete p))
              then [(uuid, ev_type ev, user_id (heap rm ! a), False)] else []))) \<and>
   (\<forall>sid s b q. map_of (sockets (run evs new_server)) sid = Some s \<and> joined s = Some (b, q) \<longrightarrow>
      (\<exists>ds0. getDrawingState q (manager (run evs new_server)) = Some ds0 \<and> cursor_ok ds0)) \<and>
   (\<forall>operation \<in> set (room_log rid (run evs new_server)).
      (op_type operation = ''draw'' \<or> op_type operation = ''shape'' \<or>
       op_type operation = ''text'' \<or> op_type operation = ''image'' \<or>
       (\<exists>p. op_data operation = Some p \<and> truthy (isComplete p))) \<and>
      (op_type operation = ''draw-incremental'' \<longrightarrow>
         (\<exists>p. op_data operation = Some p \<and> truthy (isComplete p))))"
proof (intro conjI impI allI ballI)
  assume "joined sock = Some (a, r) \<and> getDrawingState r rm = Some ds \<and> cursor_ok ds"
  then have "joined sock = Some (a, r)" "getDrawingState r rm = Some ds" "cursor_ok ds"
    by simp_all
  from drawing_event_commit [OF this, of ev uuid now]
  show "\<exists>ds'. getDrawingState r (on_drawing_event ev uuid now sock rm) = Some ds' \<and>
         map entry_key (operations ds') =
           map entry_key (operations ds) @
             (if ev_type ev = ''draw'' \<or> ev_type ev = ''shape'' \<or> ev_type ev = ''text'' \<or>
                 ev_type ev = ''image'' \<or>
                 (case ev_data ev of None \<Rightarrow> False | Some p \<Rightarrow> truthy (isComplete p))
              then [(uuid, ev_type ev, user_id (heap rm ! a), False)] else [])"
    by (simp only: commit_cond_def)
next
  fix sid s b q
  assume "map_of (sockets (run evs new_server)) sid = Some s \<and> joined s = Some (b, q)"
  then show "\<exists>ds0. getDrawingState q (manager (run evs new_server)) = Some ds0 \<and> cursor_ok ds0"
    by (auto intro: joined_socket_has_log)
next
  fix operation
  assume "operation \<in> set (room_log rid (run evs new_server))"
  with room_log_commit_cond [of rid evs]
  have cc: "commit_cond (op_type operation) (op_data operation)"
    by (simp add: list_all_iff)
  then show "op_type operation = ''draw'' \<or> op_type operation = ''shape'' \<or>
       op_type operation = ''text'' \<or> op_type operation = ''image'' \<or>
       (\<exists>p. op_data operation = Some p \<and> truthy (isComplete p))"
    by (auto simp: commit_cond_def split: option.splits)
  assume "op_type operation = ''draw-incremental''"
  with cc show "\<exists>p. op_data operation = Some p \<and> truthy (isComplete p)"
    by (auto simp: commit_cond_def split: option.splits)
qed

lemma commit_rule_instance:
  "joined \<lparr>currentUser = Some 0, currentRoom = Some ''R''\<rparr> = Some (0, ''R'')"
  "getDrawingState ''R'' (manager (run joined_xy new_server)) = Some (new_DrawingState ''R'')"
  "cursor_ok (new_DrawingState ''R'')"
  "map entry_key (room_log ''R'' (run (joined_xy @
      [DrawingEvent ''s1'' \<lparr>ev_type = ''draw-incremental'', ev_data = Some segment\<rparr> ''P'' 3,
       DrawingEvent ''s1'' \<lparr>ev_type = ''draw-incremental'', ev_data = Some stroke\<rparr> ''Q'' 4,
       DrawingEvent ''s2'' \<lparr>ev_type = ''text'', ev_data = None\<rparr> ''T'' 5,
       DrawingEvent ''s2'' \<lparr>ev_type = ''move'', ev_data = None\<rparr> ''M'' 6]) new_server)) =
     [(''Q'', ''draw-incremental'', ''uX'', False), (''T'', ''text'', ''uY'', False)]"
  by code_simp+

theorem commit_rule_witness:
  "joined \<lparr>currentUser = Some 0, currentRoom = Some ''R''\<rparr> = Some (0, ''R'') \<and>
   getDrawingState ''R'' (manager (run joined_xy new_server)) = Some (new_DrawingState ''R'') \<and>
   cursor_ok (new_DrawingState ''R'') \<and>
   (\<exists>ds'. getDrawingState ''R''
       (on_drawing_event \<lparr>ev_type = ''draw-incremental'', ev_data = Some segment\<rparr> ''P'' 3
         \<lparr>currentUser = Some 0, currentRoom = Some ''R''\<rparr> (manager (run joined_xy new_server))) = Some ds' \<and>
      map entry_key (operations ds') = []) \<and>
   map entry_key (room_log ''R'' (run (joined_xy @
      [DrawingEvent ''s1'' \<lparr>ev_type = ''draw-incremental'', ev_data = Some segment\<rparr> ''P'' 3,
       DrawingEvent ''s1'' \<lparr>ev_type = ''draw-incremental'', ev_data = Some stroke\<rparr> ''Q'' 4,
       DrawingEvent ''s2'' \<lparr>ev_type = ''text'', ev_data = None\<rparr> ''T'' 5,
       DrawingEvent ''s2'' \<lparr>ev_type = ''move'', ev_data = None\<rparr> ''M'' 6]) new_server)) =
     [(''Q'', ''draw-incremental'', ''uX'', False), (''T'', ''text'', ''uY'', False)]"
proof -
  have seg: "\<not> truthy (isComplete segment)" "operations (new_DrawingState ''R'') = []"
    by (simp_all add: segment_def new_DrawingState_def)
  from commit_rule [of "\<lparr>currentUser = Some 0, currentRoom = Some ''R''\<rparr>" 0 "''R''"
      "manager (run joined_xy new_server)" "new_DrawingState ''R''"
      "\<lparr>ev_type = ''draw-incremental'', ev_data = Some segment\<rparr>" "''P''" 3]
    commit_rule_instance seg
  show ?thesis
    by simp
qed

section \<open>Clear mine and clear all\<close>

lemma clear_mine_nth:
  "j < length ops \<Longrightarrow>
     clear_mine u ops ! j = (if userId (ops ! j) = u then (ops ! j)\<lparr>undone := True\<rparr> else ops ! j)"
  by (simp add: clear_mine_def)

lemma length_clear_mine: "length (clear_mine u ops) = length ops"
  by (simp add: clear_mine_def)

lemma redo_at:
  "redo_scan (operations ds) u 0 = Some i \<Longrightarrow>
     redo u ds = (Some ((operations ds ! i)\<lparr>undone := False\<rparr>),
                  ds\<lparr>operations := (operations ds)[i := (operations ds ! i)\<lparr>undone := False\<rparr>]\<rparr>)"
  by (simp add: redo_def set_undone_def Let_def)

lemma restore_mine_not_flagged:
  "j < length pre \<Longrightarrow> \<not> (userId (restore_mine u pre ! j) = u \<and> undone (restore_mine u pre ! j))"
  by (simp add: restore_mine_def)

lemma redo_after_prefix:
  assumes "userId x = u"
  shows "snd (redo u (ds\<lparr>operations := restore_mine u pre @ x\<lparr>undone := True\<rparr> # rest\<rparr>)) =
     ds\<lparr>operations := restore_mine u (pre @ [x]) @ rest\<rparr>"
proof -
  define ops where "ops = restore_mine u pre @ x\<lparr>undone := True\<rparr> # rest"
  have len: "length (restore_mine u pre) = length pre"
    by (simp add: restore_mine_def)
  have at: "ops ! length pre = x\<lparr>undone := True\<rparr>"
    by (simp add: ops_def nth_append len)
  have before: "\<forall>j < length pre. \<not> (userId (ops ! j) = u \<and> undone (ops ! j))"
    using restore_mine_not_flagged [of _ pre u] by (simp add: ops_def nth_append len)
  have "redo_scan ops u 0 = Some (length pre)"
    by (rule redo_scan_first) (use at before assms in \<open>simp_all add: ops_def len\<close>)
  then have "redo_scan (operations (ds\<lparr>operations := ops\<rparr>)) u 0 = Some (length pre)"
    by simp
  from redo_at [OF this]
  have "snd (redo u (ds\<lparr>operations := ops\<rparr>)) =
      ds\<lparr>operations := ops[length pre := (ops ! length pre)\<lparr>undone := False\<rparr>]\<rparr>"
    by simp
  also have "ops[length pre := (ops ! length pre)\<lparr>undone := False\<rparr>] =
      restore_mine u pre @ x\<lparr>undone := False\<rparr> # rest"
    unfolding at by (simp add: ops_def list_update_append len)
  also have "\<dots> = restore_mine u (pre @ [x]) @ rest"
    using assms by (simp add: restore_mine_def)
  finally show ?thesis
    by (simp add: ops_def)
qed

lemma redo_all_after_prefix:
  "((\<lambda>s. snd (redo u s)) ^^ count_mine u suf)
       (ds\<lparr>operations := restore_mine u pre @ clear_mine u suf\<rparr>) =
     ds\<lparr>operations := restore_mine u (pre @ suf)\<rparr>"
proof (induction suf arbitrary: pre)
  case Nil
  show ?case by (simp add: count_mine_def clear_mine_def)
next
  case (Cons x xs)
  show ?case
  proof (cases "userId x = u")
    case True
    have "((\<lambda>s. snd (redo u s)) ^^ count_mine u (x # xs))
          (ds\<lparr>operations := restore_mine u pre @ clear_mine u (x # xs)\<rparr>) =
        ((\<lambda>s. snd (redo u s)) ^^ count_mine u xs)
          (snd (redo u (ds\<lparr>operations := restore_mine u pre @ x\<lparr>undone := True\<rparr> # clear_mine u xs\<rparr>)))"
    proof -
      have "count_mine u (x # xs) = Suc (count_mine u xs)"
        using True by (simp add: count_mine_def)
      moreover have "clear_mine u (x # xs) = x\<lparr>undone := True\<rparr> # clear_mine u xs"
        using True by (simp add: clear_mine_def)
      ultimately show ?thesis
        by (simp only: funpow_Suc_right o_apply)
    qed
    also have "\<dots> = ((\<lambda>s. snd (redo u s)) ^^ count_mine u xs)
          (ds\<lparr>operations := restore_mine u (pre @ [x]) @ clear_mine u xs\<rparr>)"
      by (simp only: redo_after_prefix [OF True])
    also have "\<dots> = ds\<lparr>operations := restore_mine u ((pre @ [x]) @ xs)\<rparr>"
      by (rule Cons.IH)
    finally show ?thesis by simp
  next
    case False
    have "restore_mine u pre @ clear_mine u (x # xs) = restore_mine u (pre @ [x]) @ clear_mine u xs"
      using False by (simp add: restore_mine_def clear_mine_def)
    moreover have "count_mine u (x # xs) = count_mine u xs"
      using False by (simp add: count_mine_def)
    ultimately show ?thesis
      using Cons.IH [of "pre @ [x]"] by simp
  qed
qed

lemma redo_all_after_clear_mine:
  "((\<lambda>s. snd (redo u s)) ^^ count_mine u (operations ds))
       (ds\<lparr>operations := clear_mine u (operations ds)\<rparr>) =
     ds\<lparr>operations := restore_mine u (operations ds)\<rparr>"
  using redo_all_after_prefix [where u = u and suf = "operations ds" and ds = ds and pre = "[]"]
  by (simp add: restore_mine_def)

lemma on_clear_canvas_log:
  "joined sock = Some (a, r) \<Longrightarrow> getDrawingState r rm = Some ds \<Longrightarrow>
     getDrawingState r (on_clear_canvas sock rm) =
       Some (ds\<lparr>operations := clear_mine (user_id (heap rm ! a)) (operations ds)\<rparr>)"
  by (simp add: on_clear_canvas_def getDrawingState_put_same)

lemma on_admin_clear_all_log:
  "joined sock = Some (a, r) \<Longrightarrow> getDrawingState r rm = Some ds \<Longrightarrow> isAdmin (heap rm ! a) \<Longrightarrow>
     getDrawingState r (on_admin_clear_all sock rm) = Some (clear ds)"
  by (simp add: on_admin_clear_all_def getDrawingState_put_same)

lemma clear_no_return:
  "operations (clear ds) = []"
  "undo u (clear ds) = (None, clear ds)"
  "redo u (clear ds) = (None, clear ds)"
  "globalUndo (clear ds) = (None, clear ds)"
  "globalRedo (clear ds) = (None, clear ds)"
  by (simp_all add: clear_def undo_def redo_def globalUndo_def globalRedo_def
      redo_scan.simps globalRedo_scan.simps)

lemma clear_clear: "clear (clear ds) = clear ds"
  by (simp add: clear_def)

lemma apply_call_clear: "\<not> is_add c \<Longrightarrow> apply_call c (clear ds) = clear ds"
  by (cases c) (simp_all add: clear_no_return clear_clear)

lemma run_calls_clear: "list_all (\<lambda>c. \<not> is_add c) cs \<Longrightarrow> run_calls cs (clear ds) = clear ds"
  unfolding run_calls_def
  by (induction cs) (simp_all add: apply_call_clear)

text \<open>
  Claim C5. The \<open>forEach\<close> of \<open>clear-canvas\<close> keeps the length of the log, sets
  \<open>undone = true\<close> on every entry whose author is the user and leaves every other entry
  as it is, at its position; the handler writes exactly that into the room's log. The
  flagged entries stay in the log: as many \<open>redo\<close> calls of the user as the user has
  entries make every one of them active again and change nothing else. The admin's
  \<open>admin-clear-all\<close> replaces the log by the empty one (for a sender who is not admin
  it does nothing); on the empty log \<open>undo\<close>, \<open>redo\<close>, \<open>globalUndo\<close> and
  \<open>globalRedo\<close> return null, and no sequence of such calls changes it.
\<close>

theorem clear_mine_and_clear_all:
  "length (clear_mine u ops) = length ops \<and>
   (\<forall>j < length ops.
      clear_mine u ops ! j = (if userId (ops ! j) = u then (ops ! j)\<lparr>undone := True\<rparr> else ops ! j)) \<and>
   (joined sock = Some (a, r) \<and> getDrawingState r rm = Some ds \<longrightarrow>
      getDrawingState r (on_clear_canvas sock rm) =
        Some (ds\<lparr>operations := clear_mine (user_id (heap rm ! a)) (operations ds)\<rparr>)) \<and>
   ((\<lambda>s. snd (redo u s)) ^^ count_mine u (operations ds))
       (ds\<lparr>operations := clear_mine u (operations ds)\<rparr>) =
     ds\<lparr>operations := restore_mine u (operations ds)\<rparr> \<and>
   (joined sock = Some (a, r) \<and> getDrawingState r rm = Some ds \<and> isAdmin (heap rm ! a) \<longrightarrow>
      getDrawingState r (on_admin_clear_all sock rm) = Some (clear ds)) \<and>
   (joined sock = Some (a, r) \<and> \<not> isAdmin (heap rm ! a) \<longrightarrow> on_admin_clear_all sock rm = rm) \<and>
   operations (clear ds) = [] \<and>
   undo u (clear ds) = (None, clear ds) \<and>
   redo u (clear ds) = (None, clear ds) \<and>
   globalUndo (clear ds) = (None, clear ds) \<and>
   globalRedo (clear ds) = (None, clear ds) \<and>
   (list_all (\<lambda>c. \<not> is_add c) cs \<longrightarrow> run_calls cs (clear ds) = clear ds)"
proof (intro conjI impI allI)
  show "((\<lambda>s. snd (redo u s)) ^^ count_mine u (operations ds))
       (ds\<lparr>operations := clear_mine u (operations ds)\<rparr>) =
     ds\<lparr>operations := restore_mine u (operations ds)\<rparr>"
    by (rule redo_all_after_clear_mine)
next
  assume "joined sock = Some (a, r) \<and> \<not> isAdmin (heap rm ! a)"
  then show "on_admin_clear_all sock rm = rm"
    by (simp add: on_admin_clear_all_def)
qed (simp_all add: length_clear_mine clear_mine_nth on_clear_canvas_log on_admin_clear_all_log
    clear_no_return run_calls_clear)

lemma clear_instance:
  "joined socket_X = Some (0, ''R'')"
  "isAdmin (heap (manager (run two_strokes new_server)) ! 0)"
  "\<not> isAdmin (heap (manager (run two_strokes new_server)) ! 1)"
  "map_option (\<lambda>s. map entry_key (operations s))
     (getDrawingState ''R'' (manager (run two_strokes new_server))) =
     Some [(''A'', ''draw'', ''uX'', False), (''B'', ''draw'', ''uY'', False)]"
  "map_option (\<lambda>s. map entry_key (operations s))
     (getDrawingState ''R'' (on_clear_canvas socket_X (manager (run two_strokes new_server)))) =
     Some [(''A'', ''draw'', ''uX'', True), (''B'', ''draw'', ''uY'', False)]"
  "map_option (\<lambda>s. map entry_key (operations s))
     (getDrawingState ''R'' (on_redo_request socket_X
        (on_clear_canvas socket_X (manager (run two_strokes new_server))))) =
     Some [(''A'', ''draw'', ''uX'', False), (''B'', ''draw'', ''uY'', False)]"
  "getDrawingState ''R'' (on_admin_clear_all socket_X (manager (run two_strokes new_server))) =
     Some (new_DrawingState ''R'')"
  "on_admin_clear_all socket_Y (manager (run two_strokes new_server)) =
     manager (run two_strokes new_server)"
  by code_simp+

theorem clear_mine_and_clear_all_witness:
  "joined socket_X = Some (0, ''R'') \<and>
   isAdmin (heap (manager (run two_strokes new_server)) ! 0) \<and>
   map_option (\<lambda>s. map entry_key (operations s))
     (getDrawingState ''R'' (manager (run two_strokes new_server))) =
     Some [(''A'', ''draw'', ''uX'', False), (''B'', ''draw'', ''uY'', False)] \<and>
   map_option (\<lambda>s. map entry_key (operations s))
     (getDrawingState ''R'' (on_clear_canvas socket_X (manager (run two_strokes new_server)))) =
     Some [(''A'', ''draw'', ''uX'', True), (''B'', ''draw'', ''uY'', False)] \<and>
   map_option (\<lambda>s. map entry_key (operations s))
     (getDrawingState ''R'' (on_redo_request socket_X
        (on_clear_canvas socket_X (manager (run two_strokes new_server))))) =
     Some [(''A'', ''draw'', ''uX'', False), (''B'', ''draw'', ''uY'', False)] \<and>
   getDrawingState ''R'' (on_admin_clear_all socket_X (manager (run two_strokes new_server))) =
     Some (new_DrawingState ''R'') \<and>
   on_admin_clear_all socket_Y (manager (run two_strokes new_server)) =
     manager (run two_strokes new_server) \<and>
   run_calls [Undo ''uX'', GlobalRedo, Redo ''uY'', GlobalUndo] (clear (new_DrawingState ''R'')) =
     clear (new_DrawingState ''R'')"
  using clear_mine_and_clear_all [where sock = socket_X and a = 0 and r = "''R''"
      and rm = "manager (run two_strokes new_server)" and u = "''uX''"
      and cs = "[Undo ''uX'', GlobalRedo, Redo ''uY'', GlobalUndo]"
      and ds = "new_DrawingState ''R''" and ops = "[]"]
    clear_instance
  by simp

section \<open>Admin succession\<close>

lemma addUser_appends:
  assumes "map_of (rooms rm) rid = Some room" "map_of (users room) uid = None"
  shows "map_option users (map_of (rooms (snd (addUser rid uid uname sid now rnd rm))) rid) =
     Some (users room @ [(uid, length (heap rm))])"
proof -
  have "map_set uid v m = m @ [(uid, v)]" if "map_of m uid = None" for v and m :: "(string \<times> nat) list"
    using that by (induction m) (auto split: if_splits)
  with assms show ?thesis
    by (simp add: addUser_def getRoom_def Let_def map_of_map_set_same)
qed

lemma removeUser_promotes:
  assumes room: "map_of (rooms rm) rid = Some room"
    and admin: "adminId room = Some uid"
    and remain: "map_delete uid (users room) = (k, a) # rest"
  shows "removeUser rid uid rm =
     (map_of (users room) uid,
      rm\<lparr>rooms := map_set rid
             (room\<lparr>users := (k, a) # rest, adminId := Some (user_id (heap rm ! a))\<rparr>) (rooms rm),
         heap := (heap rm)[a := (heap rm ! a)\<lparr>isAdmin := True\<rparr>]\<rparr>)"
  using assms by (simp add: removeUser_def Let_def)

lemma first_remaining:
  assumes "map_delete uid m = p # rest"
  shows "\<exists>pre post. m = pre @ p # post \<and> (\<forall>q \<in> set pre. fst q = uid) \<and> fst p \<noteq> uid"
  using assms unfolding map_delete_def filter_eq_Cons_iff by auto

lemma sorted_remaining:
  assumes "sorted (map f m)" "map_delete uid m = p # rest"
  shows "\<forall>q \<in> set rest. f p \<le> f q"
proof -
  from assms(1) have "sorted (map f (filter (\<lambda>q. fst q \<noteq> uid) m))"
    by (simp add: sorted_wrt_map sorted_wrt_filter)
  with assms(2) show ?thesis
    by (simp add: map_delete_def)
qed

text \<open>
  Claim C6. When \<open>removeUser\<close> removes the user that \<open>adminId\<close> names and the map still
  has entries, the room stays in the registry with the remaining entries in their
  order, \<open>adminId\<close> becomes the id of the first of them and \<open>isAdmin\<close> of that user
  object becomes true; no other user object is written. That first remaining entry is
  the first entry of the old map that is not the departing user, so every remaining
  user stands after it in insertion order, which is join order; with join times stored
  in that order, its \<open>joinedAt\<close> is the least. If no remaining user was flagged admin
  before, exactly one is afterwards.
\<close>

theorem admin_succession:
  "map_of (rooms rm) rid = Some room \<and> adminId room = Some uid \<and>
   map_delete uid (users room) = (k, a) # rest \<and> a < length (heap rm) \<longrightarrow>
     (\<exists>room'. map_of (rooms (snd (removeUser rid uid rm))) rid = Some room' \<and>
        users room' = (k, a) # rest \<and>
        adminId room' = Some (user_id (heap rm ! a)) \<and>
        drawingState room' = drawingState room) \<and>
     heap (snd (removeUser rid uid rm)) = (heap rm)[a := (heap rm ! a)\<lparr>isAdmin := True\<rparr>] \<and>
     isAdmin (heap (snd (removeUser rid uid rm)) ! a) \<and>
     (\<forall>b. b \<noteq> a \<longrightarrow> heap (snd (removeUser rid uid rm)) ! b = heap rm ! b) \<and>
     (\<exists>pre post. users room = pre @ (k, a) # post \<and> (\<forall>q \<in> set pre. fst q = uid) \<and> k \<noteq> uid) \<and>
     (sorted (map (\<lambda>q. joinedAt (heap rm ! snd q)) (users room)) \<longrightarrow>
        (\<forall>q \<in> set rest. joinedAt (heap rm ! a) \<le> joinedAt (heap rm ! snd q))) \<and>
     ((\<forall>q \<in> set rest. snd q \<noteq> a \<and> \<not> isAdmin (heap rm ! snd q)) \<longrightarrow>
        (\<forall>q \<in> set ((k, a) # rest).
           isAdmin (heap (snd (removeUser rid uid rm)) ! snd q) \<longleftrightarrow> q = (k, a)))"
proof (intro impI)
  assume h: "map_of (rooms rm) rid = Some room \<and> adminId room = Some uid \<and>
     map_delete uid (users room) = (k, a) # rest \<and> a < length (heap rm)"
  then have room: "map_of (rooms rm) rid = Some room" and admin: "adminId room = Some uid"
    and remain: "map_delete uid (users room) = (k, a) # rest" and a: "a < length (heap rm)"
    by simp_all
  note r = removeUser_promotes [OF room admin remain]
  have heap': "heap (snd (removeUser rid uid rm)) = (heap rm)[a := (heap rm ! a)\<lparr>isAdmin := True\<rparr>]"
    by (simp add: r)
  have 1: "\<exists>room'. map_of (rooms (snd (removeUser rid uid rm))) rid = Some room' \<and>
        users room' = (k, a) # rest \<and>
        adminId room' = Some (user_id (heap rm ! a)) \<and>
        drawingState room' = drawingState room"
    by (simp add: r map_of_map_set_same)
  have 2: "isAdmin (heap (snd (removeUser rid uid rm)) ! a)"
    using a by (simp add: heap')
  have 3: "\<forall>b. b \<noteq> a \<longrightarrow> heap (snd (removeUser rid uid rm)) ! b = heap rm ! b"
    by (simp add: heap')
  have 4: "\<exists>pre post. users room = pre @ (k, a) # post \<and> (\<forall>q \<in> set pre. fst q = uid) \<and> k \<noteq> uid"
    using first_remaining [OF remain] by simp
  have 5: "sorted (map (\<lambda>q. joinedAt (heap rm ! snd q)) (users room)) \<longrightarrow>
        (\<forall>q \<in> set rest. joinedAt (heap rm ! a) \<le> joinedAt (heap rm ! snd q))"
    using sorted_remaining [where f = "\<lambda>q. joinedAt (heap rm ! snd q)", OF _ remain] by auto
  have 6: "(\<forall>q \<in> set rest. snd q \<noteq> a \<and> \<not> isAdmin (heap rm ! snd q)) \<longrightarrow>
        (\<forall>q \<in> set ((k, a) # rest).
           isAdmin (heap (snd (removeUser rid uid rm)) ! snd q) \<longleftrightarrow> q = (k, a))"
    using 2 3 by auto
  from 1 heap' 2 3 4 5 6
  show "(\<exists>room'. map_of (rooms (snd (removeUser rid uid rm))) rid = Some room' \<and>
        users room' = (k, a) # rest \<and>
        adminId room' = Some (user_id (heap rm ! a)) \<and>
        drawingState room' = drawingState room) \<and>
     heap (snd (removeUser rid uid rm)) = (heap rm)[a := (heap rm ! a)\<lparr>isAdmin := True\<rparr>] \<and>
     isAdmin (heap (snd (removeUser rid uid rm)) ! a) \<and>
     (\<forall>b. b \<noteq> a \<longrightarrow> heap (snd (removeUser rid uid rm)) ! b = heap rm ! b) \<and>
     (\<exists>pre post. users room = pre @ (k, a) # post \<and> (\<forall>q \<in> set pre. fst q = uid) \<and> k \<noteq> uid) \<and>
     (sorted (map (\<lambda>q. joinedAt (heap rm ! snd q)) (users room)) \<longrightarrow>
        (\<forall>q \<in> set rest. joinedAt (heap rm ! a) \<le> joinedAt (heap rm ! snd q))) \<and>
     ((\<forall>q \<in> set rest. snd q \<noteq> a \<and> \<not> isAdmin (heap rm ! snd q)) \<longrightarrow>
        (\<forall>q \<in> set ((k, a) # rest).
           isAdmin (heap (snd (removeUser rid uid rm)) ! snd q) \<longleftrightarrow> q = (k, a)))"
    by (intro conjI)
qed

lemma xyz_instance:
  "map_of (rooms (manager (run joined_xyz new_server))) ''R'' = Some room_xyz"
  "map_delete ''uX'' (users room_xyz) = [(''uY'', 1), (''uZ'', 2)]"
  "length (heap (manager (run joined_xyz new_server))) = 3"
  "map joinedAt (heap (manager (run joined_xyz new_server))) = [1, 2, 3]"
  "map isAdmin (heap (manager (run joined_xyz new_server))) = [True, False, False]"
  "map_of (rooms (snd (removeUser ''R'' ''uX'' (manager (run joined_xyz new_server))))) ''R'' =
     Some (room_xyz\<lparr>users := [(''uY'', 1), (''uZ'', 2)], adminId := Some ''uY''\<rparr>)"
  "map isAdmin (heap (snd (removeUser ''R'' ''uX'' (manager (run joined_xyz new_server))))) =
     [True, True, False]"
  by code_simp+

theorem admin_succession_witness:
  "map_of (rooms (manager (run joined_xyz new_server))) ''R'' = Some room_xyz \<and>
   adminId room_xyz = Some ''uX'' \<and>
   map_delete ''uX'' (users room_xyz) = [(''uY'', 1), (''uZ'', 2)] \<and>
   1 < length (heap (manager (run joined_xyz new_server))) \<and>
   map joinedAt (heap (manager (run joined_xyz new_server))) = [1, 2, 3] \<and>
   map isAdmin (heap (manager (run joined_xyz new_server))) = [True, False, False] \<and>
   map_of (rooms (snd (removeUser ''R'' ''uX'' (manager (run joined_xyz new_server))))) ''R'' =
     Some (room_xyz\<lparr>users := [(''uY'', 1), (''uZ'', 2)], adminId := Some ''uY''\<rparr>) \<and>
   map isAdmin (heap (snd (removeUser ''R'' ''uX'' (manager (run joined_xyz new_server))))) =
     [True, True, False]"
  using admin_succession [where rm = "manager (run joined_xyz new_server)" and rid = "''R''"
      and room = room_xyz and uid = "''uX''" and k = "''uY''" and a = 1
      and rest = "[(''uZ'', 2)]"]
    xyz_instance
  by (simp add: room_xyz_def)

section \<open>The last user leaves\<close>

lemma removeUser_last:
  assumes "map_of (rooms rm) rid = Some room" "map_delete uid (users room) = []"
  shows "map_of (rooms (snd (removeUser rid uid rm))) rid = None"
  using assms by (simp add: removeUser_def Let_def map_of_map_delete_same)

lemma getRoom_entry: "map_of (rooms (snd (getRoom rid now rm))) rid = Some (fst (getRoom rid now rm))"
  by (simp add: getRoom_def Let_def map_of_map_set_same split: option.split)

lemma getRoom_fresh:
  "map_of (rooms rm) rid = None \<Longrightarrow>
     fst (getRoom rid now rm) =
       \<lparr>room_id = rid, users = [], drawingState = new_DrawingState rid, adminId = None,
        createdAt = now\<rparr>"
  by (simp add: getRoom_def Let_def)

text \<open>
  Whatever the state, the \<open>disconnect\<close> handler of a socket that has joined leaves an
  entry for its room in the registry; when \<open>removeUser\<close> has deleted the room, the entry
  is a new, empty room made by \<open>getRoom\<close>.
\<close>

lemma on_disconnect_keeps_entry:
  "joined sock = Some (a, r) \<Longrightarrow> map_of (rooms (on_disconnect now sock rm)) r \<noteq> None"
  by (simp add: on_disconnect_def Let_def getRoom_entry)

lemma on_disconnect_last:
  assumes "joined sock = Some (a, r)" "map_of (rooms rm) r = Some room"
    and "map_delete (user_id (heap rm ! a)) (users room) = []"
  shows "map_of (rooms (on_disconnect now sock rm)) r =
     Some \<lparr>room_id = r, users = [], drawingState = new_DrawingState r, adminId = None,
           createdAt = now\<rparr>"
  using assms removeUser_last [OF assms(2,3)]
  by (simp add: on_disconnect_def Let_def getRoom_entry getRoom_fresh)

text \<open>
  Claim C7, on the code. X joins room R alone and draws a stroke. \<open>removeUser\<close> for X
  deletes the room from the registry. The whole \<open>disconnect\<close> handler of X's socket does
  not leave it deleted: the registry then holds an entry for R again, a room with no
  users, an empty log, no admin, created at the time of the disconnect.
\<close>

theorem last_user_disconnect:
  "map_option (\<lambda>room. (users room, map op_id (operations (drawingState room))))
     (map_of (rooms (manager (run one_user new_server))) ''R'') = Some ([(''uX'', 0)], [''A'']) \<and>
   map_of (rooms (snd (removeUser ''R'' ''uX'' (manager (run one_user new_server))))) ''R'' = None \<and>
   map_of (rooms (manager (run (one_user @ [Disconnect ''s1'' 9]) new_server))) ''R'' =
     Some \<lparr>room_id = ''R'', users = [], drawingState = new_DrawingState ''R'', adminId = None,
           createdAt = 9\<rparr>"
  by code_simp

section \<open>Admin transfer\<close>

text \<open>
  Claim C8, on the code. \<open>admin-transfer\<close> never changes the state: for a sender who
  is not admin the handler returns after the error message, and for the admin the call
  of \<open>setAdmin\<close> throws and the \<open>catch\<close> logs it. With X (admin) and Y in room R, X's
  request to transfer to Y leaves X as \<open>adminId\<close> and the \<open>isAdmin\<close> flags as they were.
\<close>

theorem admin_transfer_no_effect:
  "on_admin_transfer newAdminId sock rm = rm \<and>
   map_option adminId (map_of (rooms (manager (run joined_xy new_server))) ''R'') =
     Some (Some ''uX'') \<and>
   map isAdmin (heap (manager (run joined_xy new_server))) = [True, False] \<and>
   run (joined_xy @ [AdminTransfer ''s1'' ''uY'']) new_server = run joined_xy new_server"
proof (intro conjI)
  show "on_admin_transfer newAdminId sock rm = rm"
    by (simp add: on_admin_transfer_def setAdmin_def split: option.split prod.split)
qed code_simp+

section \<open>Reconciliation on the client\<close>

lemma findIndex_first:
  assumes "i < length xs" "P (xs ! i)" "\<forall>j<i. \<not> P (xs ! j)"
  shows "findIndex P xs = Some i"
proof (cases "findIndex P xs")
  case None
  with assms show ?thesis
    by (auto simp: findIndex_None)
next
  case (Some i')
  from findIndex_Some [OF Some] assms have "i' = i"
    by (metis linorder_neqE_nat)
  with Some show ?thesis by simp
qed

lemma client_addOperation_durable:
  "is_durable (op_type operation) \<Longrightarrow> client_addOperation operation ops = reconcile operation ops"
  by (auto simp: client_addOperation_def is_durable_def)

lemma find_id_None: "find (\<lambda>op. op_id op = s) ops = None \<longleftrightarrow> s \<notin> set (map op_id ops)"
  by (auto simp: find_None_iff)

lemma reconcile_pending:
  "pending_index operation ops = Some i \<Longrightarrow> reconcile operation ops = ops[i := operation]"
  by (simp add: reconcile_def)

lemma reconcile_duplicate:
  "pending_index operation ops = None \<Longrightarrow> op_id operation \<in> set (map op_id ops) \<Longrightarrow>
     reconcile operation ops = ops"
  using find_id_None [of "op_id operation" ops]
  by (auto simp: reconcile_def split: option.split)

lemma reconcile_new:
  "pending_index operation ops = None \<Longrightarrow> op_id operation \<notin> set (map op_id ops) \<Longrightarrow>
     reconcile operation ops = ops @ [operation]"
  using find_id_None [of "op_id operation" ops]
  by (auto simp: reconcile_def split: option.split)

lemma pending_index_Some:
  assumes "pending_index operation ops = Some i"
  shows "\<exists>d t. op_data operation = Some d \<and> tempId d = JStr t \<and> t \<noteq> [] \<and>
     i < length ops \<and> op_id (ops ! i) = t \<and> (\<forall>j<i. op_id (ops ! j) \<noteq> t)"
proof -
  from assms obtain d where d: "op_data operation = Some d" "truthy (tempId d)"
      "findIndex (id_is (tempId d)) ops = Some i"
    by (auto simp: pending_index_def split: option.splits if_splits)
  from findIndex_Some [OF d(3)] have i: "i < length ops" "id_is (tempId d) (ops ! i)"
      "\<forall>j<i. \<not> id_is (tempId d) (ops ! j)"
    by auto
  from i(2) have t: "tempId d = JStr (op_id (ops ! i))"
    by (simp add: id_is_def)
  with d(2) have "op_id (ops ! i) \<noteq> []" by simp
  with d(1) t i show ?thesis
    by (auto simp: id_is_def)
qed

lemma reconcile_idem:
  assumes dist: "distinct (map op_id ops)"
  shows "reconcile operation (reconcile operation ops) = reconcile operation ops"
proof (cases "pending_index operation ops")
  case (Some i)
  from pending_index_Some [OF Some] obtain d t where
    d: "op_data operation = Some d" "tempId d = JStr t" "t \<noteq> []" and
    i: "i < length ops" "op_id (ops ! i) = t" "\<forall>j<i. op_id (ops ! j) \<noteq> t"
    by blast
  define ops1 where "ops1 = ops[i := operation]"
  have r1: "reconcile operation ops = ops1"
    by (simp add: reconcile_pending [OF Some] ops1_def)
  have others: "op_id (ops ! j) \<noteq> t" if "j < length ops" "j \<noteq> i" for j
    using dist that i(1,2) by (auto simp: distinct_conv_nth)
  show ?thesis
  proof (cases "op_id operation = t")
    case True
    have "findIndex (id_is (JStr t)) ops1 = Some i"
      by (rule findIndex_first) (use i True in \<open>auto simp: ops1_def id_is_def\<close>)
    then have "pending_index operation ops1 = Some i"
      using d by (simp add: pending_index_def)
    then have "reconcile operation ops1 = ops1[i := operation]"
      by (rule reconcile_pending)
    then show ?thesis
      by (simp add: r1) (simp add: ops1_def)
  next
    case False
    have "\<not> id_is (JStr t) x" if "x \<in> set ops1" for x
    proof -
      from that obtain j where j: "j < length ops1" "x = ops1 ! j"
        by (auto simp: in_set_conv_nth)
      show ?thesis
      proof (cases "j = i")
        case True
        with j i False show ?thesis by (simp add: ops1_def id_is_def)
      next
        case False
        with j others [of j] show ?thesis by (simp add: ops1_def id_is_def)
      qed
    qed
    then have "findIndex (id_is (JStr t)) ops1 = None"
      by (simp add: findIndex_None)
    then have p1: "pending_index operation ops1 = None"
      using d by (simp add: pending_index_def)
    have "operation \<in> set ops1"
      using i(1) by (simp add: ops1_def set_update_memI)
    then have "op_id operation \<in> set (map op_id ops1)"
      by auto
    from reconcile_duplicate [OF p1 this] show ?thesis
      by (simp add: r1)
  qed
next
  case None
  show ?thesis
  proof (cases "op_id operation \<in> set (map op_id ops)")
    case True
    from reconcile_duplicate [OF None True] show ?thesis by simp
  next
    case False
    define ops1 where "ops1 = ops @ [operation]"
    have r1: "reconcile operation ops = ops1"
      by (simp add: reconcile_new [OF None False] ops1_def)
    have mem: "op_id operation \<in> set (map op_id ops1)"
      by (simp add: ops1_def)
    show ?thesis
    proof (cases "pending_index operation ops1")
      case None
      from reconcile_duplicate [OF None mem] show ?thesis
        by (simp add: r1)
    next
      case (Some i)
      from pending_index_Some [OF Some] obtain d t where
        d: "op_data operation = Some d" "tempId d = JStr t" "t \<noteq> []" and
        i: "i < length ops1" "op_id (ops1 ! i) = t"
        by blast
      have "i = length ops"
      proof (rule ccontr)
        assume "i \<noteq> length ops"
        with i have lt: "i < length ops" and "op_id (ops ! i) = t"
          by (auto simp: ops1_def nth_append)
        then have "id_is (tempId d) (ops ! i)" "ops ! i \<in> set ops"
          using d by (auto simp: id_is_def)
        then have "findIndex (id_is (tempId d)) ops \<noteq> None"
          by (auto simp: findIndex_None)
        with d \<open>pending_index operation ops = None\<close> show False
          by (simp add: pending_index_def)
      qed
      then have "ops1[i := operation] = ops1"
        by (simp add: ops1_def)
      with reconcile_pending [OF Some] show ?thesis
        by (simp add: r1)
    qed
  qed
qed

lemma client_addOperation_reconcile:
  "reaches_reconcile operation \<Longrightarrow> client_addOperation operation ops = reconcile operation ops"
  by (auto simp: client_addOperation_def reaches_reconcile_def)

lemma is_durable_reaches: "is_durable (op_type operation) \<Longrightarrow> reaches_reconcile operation"
  by (auto simp: is_durable_def reaches_reconcile_def)

lemma pending_index_first:
  assumes "op_data operation = Some d" "tempId d = JStr t" "t \<noteq> []"
    and "i < length ops" "op_id (ops ! i) = t" "\<forall>j<i. op_id (ops ! j) \<noteq> t"
  shows "pending_index operation ops = Some i"
proof -
  have "findIndex (id_is (JStr t)) ops = Some i"
    by (rule findIndex_first) (use assms in \<open>auto simp: id_is_def\<close>)
  with assms show ?thesis
    by (simp add: pending_index_def)
qed

lemma pending_index_None:
  "pending_index operation ops = None \<longleftrightarrow>
     \<not> (\<exists>d. op_data operation = Some d \<and> truthy (tempId d) \<and>
          (\<exists>x \<in> set ops. tempId d = JStr (op_id x)))"
  by (auto simp: pending_index_def findIndex_None id_is_def split: option.split)

text \<open>
  Claim C9. For an operation that reaches the reconciliation block (every operation of
  type \<open>draw\<close>, \<open>shape\<close>, \<open>text\<close> or \<open>image\<close> does): if its payload carries a truthy
  \<open>tempId\<close> and \<open>i\<close> is the first index of a local entry whose id is that \<open>tempId\<close>, the
  entry at \<open>i\<close> is overwritten by the operation and nothing is added. If no local entry
  matches a \<open>tempId\<close> of the payload and an entry with the operation's id is present, the
  history is left as it is; if none is present the operation is pushed. In a history
  with distinct ids, delivering the same operation a second time changes nothing.
\<close>

theorem reconcile_once:
  "(is_durable (op_type operation) \<longrightarrow> reaches_reconcile operation) \<and>
   (reaches_reconcile operation \<longrightarrow>
      (\<forall>d t i. op_data operation = Some d \<and> tempId d = JStr t \<and> t \<noteq> [] \<and>
          i < length ops \<and> op_id (ops ! i) = t \<and> (\<forall>j<i. op_id (ops ! j) \<noteq> t) \<longrightarrow>
          client_addOperation operation ops = ops[i := operation] \<and>
          length (client_addOperation operation ops) = length ops \<and>
          client_addOperation operation ops ! i = operation) \<and>
      (\<not> (\<exists>d. op_data operation = Some d \<and> truthy (tempId d) \<and>
             (\<exists>x \<in> set ops. tempId d = JStr (op_id x))) \<longrightarrow>
         (op_id operation \<in> set (map op_id ops) \<longrightarrow> client_addOperation operation ops = ops) \<and>
         (op_id operation \<notin> set (map op_id ops) \<longrightarrow>
            client_addOperation operation ops = ops @ [operation])) \<and>
      (distinct (map op_id ops) \<longrightarrow>
         client_addOperation operation (client_addOperation operation ops) =
           client_addOperation operation ops))"
proof (intro conjI impI allI)
  assume "is_durable (op_type operation)"
  then show "reaches_reconcile operation" by (rule is_durable_reaches)
next
  fix d t i
  assume r: "reaches_reconcile operation"
    and h: "op_data operation = Some d \<and> tempId d = JStr t \<and> t \<noteq> [] \<and>
          i < length ops \<and> op_id (ops ! i) = t \<and> (\<forall>j<i. op_id (ops ! j) \<noteq> t)"
  then have p: "pending_index operation ops = Some i"
    by (intro pending_index_first [of operation d t]) simp_all
  from h have i: "i < length ops" by simp
  from reconcile_pending [OF p] r
  have eq: "client_addOperation operation ops = ops[i := operation]"
    by (simp add: client_addOperation_reconcile)
  then show "client_addOperation operation ops = ops[i := operation]" .
  from eq show "length (client_addOperation operation ops) = length ops" by simp
  from eq i show "client_addOperation operation ops ! i = operation" by simp
next
  assume r: "reaches_reconcile operation"
    and n: "\<not> (\<exists>d. op_data operation = Some d \<and> truthy (tempId d) \<and>
             (\<exists>x \<in> set ops. tempId d = JStr (op_id x)))"
  from n have p: "pending_index operation ops = None"
    by (simp only: pending_index_None not_False_eq_True)
  {
    assume "op_id operation \<in> set (map op_id ops)"
    from reconcile_duplicate [OF p this] r
    show "client_addOperation operation ops = ops"
      by (simp add: client_addOperation_reconcile)
  }
  {
    assume "op_id operation \<notin> set (map op_id ops)"
    from reconcile_new [OF p this] r
    show "client_addOperation operation ops = ops @ [operation]"
      by (simp add: client_addOperation_reconcile)
  }
next
  assume r: "reaches_reconcile operation" and "distinct (map op_id ops)"
  from reconcile_idem [OF this(2), of operation] r
  show "client_addOperation operation (client_addOperation operation ops) =
           client_addOperation operation ops"
    by (simp add: client_addOperation_reconcile)
qed

lemma reconcile_instance:
  "is_durable (op_type confirmed_shape)"
  "op_data confirmed_shape = Some (stroke\<lparr>tempId := JStr ''temp-1''\<rparr>)"
  "client_addOperation pending_shape [mk_op ''S0'' ''draw'' ''uY'' False] =
     [mk_op ''S0'' ''draw'' ''uY'' False, pending_shape]"
  "client_addOperation confirmed_shape [mk_op ''S0'' ''draw'' ''uY'' False, pending_shape] =
     [mk_op ''S0'' ''draw'' ''uY'' False, confirmed_shape]"
  "client_addOperation confirmed_shape [mk_op ''S0'' ''draw'' ''uY'' False, confirmed_shape] =
     [mk_op ''S0'' ''draw'' ''uY'' False, confirmed_shape]"
  by code_simp+

theorem reconcile_once_witness:
  "is_durable (op_type confirmed_shape) \<and>
   op_data confirmed_shape = Some (stroke\<lparr>tempId := JStr ''temp-1''\<rparr>) \<and>
   client_addOperation pending_shape [mk_op ''S0'' ''draw'' ''uY'' False] =
     [mk_op ''S0'' ''draw'' ''uY'' False, pending_shape] \<and>
   client_addOperation confirmed_shape [mk_op ''S0'' ''draw'' ''uY'' False, pending_shape] =
     [mk_op ''S0'' ''draw'' ''uY'' False, confirmed_shape] \<and>
   client_addOperation confirmed_shape [mk_op ''S0'' ''draw'' ''uY'' False, confirmed_shape] =
     [mk_op ''S0'' ''draw'' ''uY'' False, confirmed_shape]"
  using reconcile_once [of confirmed_shape "[mk_op ''S0'' ''draw'' ''uY'' False, pending_shape]"]
    reconcile_instance
  by simp

end
